theory Spec2Isabelle
  imports Main
begin

section \<open>The leaderboard service of \<open>leader_board/logic/leader_board_logic.go\<close>\<close>

text \<open>
  The Go service keeps two views of the same \<open>PlayerEntry\<close> objects: a map from player
  identity to a pointer, and a slice of pointers in rank order. \<open>UpdateScore\<close> writes the
  fields of an entry through its pointer, so the model has an explicit store: \<open>heap\<close> is the
  list of the entries allocated so far and a pointer is an index into it. Pointers come
  from \<open>&model.PlayerEntry{...}\<close> only, so they are never nil. Every method holds the
  lock \<open>lb.mu\<close> for its whole body, so the methods are atomic and are modelled one after
  the other.

  Go's \<open>int\<close> is taken as the 64-bit type of the 64-bit platforms and \<open>int64\<close> is 64-bit
  everywhere. Scores and timestamps are only stored and compared, so they are HOL
  integers. The arithmetic on the caller's \<open>rng\<close> is written with its wrap-around
  (\<open>add64\<close>, \<open>sub64\<close>, \<open>mul64\<close>). Counters that stay below the length of the ranking
  (\<open>i + 1\<close>, \<open>rank++\<close>) cannot wrap and are plain additions.

  \<open>make([]T, 0, c)\<close> panics at run time when \<open>c\<close> is negative (Go specification, "Making
  slices, maps and channels") and when \<open>c\<close> elements are more than the runtime allocates
  (\<open>runtime.makeslice\<close>; both are the panic "makeslice: cap out of range", here
  \<open>MakeSliceCapOutOfRange\<close>). The limit belongs to the Go runtime and not to this
  repository, so the queries that call \<open>make\<close> with a capacity of the caller take it as
  their first argument \<open>maxcap\<close>: the largest capacity of a \<open>[]model.RankInfo\<close> that the
  runtime grants. A slice result that may be \<open>nil\<close> is an option: \<open>None\<close> is \<open>nil\<close>,
  \<open>Some xs\<close> is a slice made by \<open>make\<close>.
\<close>

subsection \<open>Data model (package \<open>model\<close>)\<close>

record RankInfo =
  PlayerID :: string
  Score :: int
  Rank :: int
  Timestamp :: int

record PlayerEntry =
  PlayerID :: string
  Score :: int
  Timestamp :: int

type_synonym addr = nat

record LeaderboardService =
  heap :: "PlayerEntry list"
  players :: "string \<rightharpoonup> addr"
  ranking :: "addr list"

datatype panic = MakeSliceCapOutOfRange | IndexOutOfRange

text \<open>Whether \<open>make([]model.RankInfo, 0, c)\<close> panics, for the runtime's limit \<open>maxcap\<close>.\<close>

definition makeslice_panics :: "int \<Rightarrow> int \<Rightarrow> bool" where
  "makeslice_panics maxcap c \<longleftrightarrow> c < 0 \<or> c > maxcap"

text \<open>
  The limit of the Go runtime on linux/amd64, for the examples: an allocation holds at most
  \<open>2^48\<close> bytes and a \<open>model.RankInfo\<close> (a string header and three 64-bit integers) takes 40.
\<close>

definition maxcap_amd64 :: int where
  "maxcap_amd64 = 2 ^ 48 div 40"

subsection \<open>64-bit integer arithmetic\<close>

definition wrap64 :: "int \<Rightarrow> int" where
  "wrap64 x = (x + 2 ^ 63) mod 2 ^ 64 - 2 ^ 63"

definition add64 :: "int \<Rightarrow> int \<Rightarrow> int" where
  "add64 a b = wrap64 (a + b)"

definition sub64 :: "int \<Rightarrow> int \<Rightarrow> int" where
  "sub64 a b = wrap64 (a - b)"

definition mul64 :: "int \<Rightarrow> int \<Rightarrow> int" where
  "mul64 a b = wrap64 (a * b)"

subsection \<open>\<open>sort.Search\<close> of the Go standard library\<close>

text \<open>
  \<open>sort.Search(n, f)\<close> is the binary search of the standard library:
  \<^verbatim>\<open>i, j := 0, n; for i < j { h := int(uint(i+j) >> 1); if !f(h) { i = h + 1 } else { j = h } }; return i\<close>.
  The indices stay in \<open>0..n\<close>, so they are naturals here and \<open>h\<close> is \<open>(i + j) div 2\<close>.
\<close>

function Search_loop :: "(nat \<Rightarrow> bool) \<Rightarrow> nat \<Rightarrow> nat \<Rightarrow> nat" where
  "Search_loop f i j =
     (if i < j then
        (let h = (i + j) div 2
         in if \<not> f h then Search_loop f (h + 1) j else Search_loop f i h)
      else i)"
  by pat_completeness auto
termination
  by (relation "measure (\<lambda>(f, i, j). j - i)") auto

definition Search :: "nat \<Rightarrow> (nat \<Rightarrow> bool) \<Rightarrow> nat" where
  "Search n f = Search_loop f 0 n"

subsection \<open>Maintaining the ranking\<close>

definition NewLeaderboardService :: LeaderboardService where
  "NewLeaderboardService = \<lparr>heap = [], players = Map.empty, ranking = []\<rparr>"

text \<open>The closure that \<open>insertToRanking\<close> passes to \<open>sort.Search\<close>, at the element \<open>x\<close>.\<close>

definition insertToRanking_pred :: "PlayerEntry \<Rightarrow> PlayerEntry \<Rightarrow> bool" where
  "insertToRanking_pred x entry =
     (if Score x < Score entry then True
      else if Score x = Score entry then Timestamp x > Timestamp entry
      else False)"

text \<open>
  \<open>append(lb.ranking, nil)\<close>, the \<open>copy\<close> of the tail one place to the right and the
  store at \<open>idx\<close> leave the elements before \<open>idx\<close>, the entry, and the elements from \<open>idx\<close>.
\<close>

definition insertToRanking :: "LeaderboardService \<Rightarrow> addr \<Rightarrow> LeaderboardService" where
  "insertToRanking lb entry =
     (let idx = Search (length (ranking lb))
                  (\<lambda>i. insertToRanking_pred (heap lb ! (ranking lb ! i)) (heap lb ! entry))
      in lb\<lparr>ranking := take idx (ranking lb) @ entry # drop idx (ranking lb)\<rparr>)"

text \<open>
  The \<open>range\<close> loop of \<open>removeFromRanking\<close>: \<open>r\<close> is the whole slice, the third argument
  the elements from index \<open>i\<close> on.
\<close>

fun removeFromRanking_loop :: "addr list \<Rightarrow> nat \<Rightarrow> addr list \<Rightarrow> addr \<Rightarrow> addr list" where
  "removeFromRanking_loop r i [] entry = r"
| "removeFromRanking_loop r i (e # es) entry =
     (if e = entry then take i r @ drop (i + 1) r
      else removeFromRanking_loop r (i + 1) es entry)"

definition removeFromRanking :: "LeaderboardService \<Rightarrow> addr \<Rightarrow> LeaderboardService" where
  "removeFromRanking lb entry =
     lb\<lparr>ranking := removeFromRanking_loop (ranking lb) 0 (ranking lb) entry\<rparr>"

fun findRank_loop :: "addr list \<Rightarrow> int \<Rightarrow> addr \<Rightarrow> int" where
  "findRank_loop [] i entry = - 1"
| "findRank_loop (e # es) i entry =
     (if e = entry then i else findRank_loop es (i + 1) entry)"

definition findRank :: "LeaderboardService \<Rightarrow> addr \<Rightarrow> int" where
  "findRank lb entry = findRank_loop (ranking lb) 0 entry"

definition UpdateScore ::
  "LeaderboardService \<Rightarrow> string \<Rightarrow> int \<Rightarrow> int \<Rightarrow> LeaderboardService" where
  "UpdateScore lb playerId score timestamp =
     (case players lb playerId of
        Some entry \<Rightarrow>
          (let lb1 = removeFromRanking lb entry;
               lb2 = lb1\<lparr>heap := (heap lb1)
                        [entry := (heap lb1 ! entry)\<lparr>Score := score, Timestamp := timestamp\<rparr>]\<rparr>
           in insertToRanking lb2 entry)
      | None \<Rightarrow>
          (let entry = length (heap lb);
               lb1 = lb\<lparr>heap := heap lb @
                                [\<lparr>PlayerID = playerId, Score = score, Timestamp = timestamp\<rparr>],
                       players := (players lb)(playerId \<mapsto> entry)\<rparr>
           in insertToRanking lb1 entry))"

subsection \<open>Standard-rank queries\<close>

definition rankInfo :: "PlayerEntry \<Rightarrow> int \<Rightarrow> RankInfo" where
  "rankInfo e r =
     \<lparr>RankInfo.PlayerID = PlayerID e, RankInfo.Score = Score e, Rank = r,
      RankInfo.Timestamp = Timestamp e\<rparr>"

definition GetPlayerRank :: "LeaderboardService \<Rightarrow> string \<Rightarrow> RankInfo option" where
  "GetPlayerRank lb playerId =
     (case players lb playerId of
        None \<Rightarrow> None
      | Some entry \<Rightarrow>
          (let rank = findRank lb entry
           in Some (rankInfo (heap lb ! entry) (rank + 1))))"

function GetTopN_loop ::
  "LeaderboardService \<Rightarrow> int \<Rightarrow> nat \<Rightarrow> RankInfo list \<Rightarrow> RankInfo list" where
  "GetTopN_loop lb n i res =
     (if int i < n \<and> i < length (ranking lb) then
        (let entry = heap lb ! (ranking lb ! i)
         in GetTopN_loop lb n (i + 1) (res @ [rankInfo entry (int i + 1)]))
      else res)"
  by pat_completeness auto
termination
  by (relation "measure (\<lambda>(lb, n, i, res). length (ranking lb) - i)") auto

definition GetTopN :: "int \<Rightarrow> LeaderboardService \<Rightarrow> int \<Rightarrow> panic + RankInfo list" where
  "GetTopN maxcap lb n =
     (if makeslice_panics maxcap n then Inl MakeSliceCapOutOfRange
      else Inr (GetTopN_loop lb n 0 []))"

text \<open>
  The loop \<open>for i := start; i <= end; i++\<close>; the read \<open>lb.ranking[i]\<close> panics outside
  the slice.
\<close>

function GetPlayerRankRange_loop ::
  "LeaderboardService \<Rightarrow> int \<Rightarrow> int \<Rightarrow> RankInfo list \<Rightarrow> panic + RankInfo list" where
  "GetPlayerRankRange_loop lb i endi res =
     (if i \<le> endi then
        (if 0 \<le> i \<and> i < int (length (ranking lb)) then
           (let e = heap lb ! (ranking lb ! nat i)
            in GetPlayerRankRange_loop lb (i + 1) endi (res @ [rankInfo e (i + 1)]))
         else Inl IndexOutOfRange)
      else Inr res)"
  by pat_completeness auto
termination
  by (relation "measure (\<lambda>(lb, i, endi, res). nat (endi + 1 - i))") auto

definition GetPlayerRankRange ::
  "int \<Rightarrow> LeaderboardService \<Rightarrow> string \<Rightarrow> int \<Rightarrow> panic + RankInfo list option" where
  "GetPlayerRankRange maxcap lb playerId rng =
     (case players lb playerId of
        None \<Rightarrow> Inr None
      | Some entry \<Rightarrow>
          (let rank = findRank lb entry;
               start0 = sub64 rank rng;
               start = (if start0 < 0 then 0 else start0);
               end0 = add64 rank rng;
               endi = (if end0 \<ge> int (length (ranking lb))
                       then int (length (ranking lb)) - 1 else end0)
           in if makeslice_panics maxcap (add64 (sub64 endi start) 1)
              then Inl MakeSliceCapOutOfRange
              else (case GetPlayerRankRange_loop lb start endi [] of
                      Inl p \<Rightarrow> Inl p
                    | Inr res \<Rightarrow> Inr (Some res))))"

subsection \<open>Dense-rank queries\<close>

text \<open>
  The dense-rank loops of \<open>GetDenseTopN\<close> and \<open>GetPlayerDenseRankRange\<close> (and of
  \<open>findDenseRank\<close>, which no method calls and which is left out) share the body
  \<^verbatim>\<open>if i == 0 || e.Score != prevScore { if i != 0 { rank++ }; prevScore = e.Score }\<close>,
  which maps \<open>(rank, prevScore)\<close> to its next value.
\<close>

definition dense_step :: "nat \<Rightarrow> int \<Rightarrow> int \<times> int \<Rightarrow> int \<times> int" where
  "dense_step i score st =
     (case st of (rank, prevScore) \<Rightarrow>
        if i = 0 \<or> score \<noteq> prevScore
        then (if i \<noteq> 0 then rank + 1 else rank, score)
        else (rank, prevScore))"

function GetDenseTopN_loop ::
  "LeaderboardService \<Rightarrow> int \<Rightarrow> nat \<Rightarrow> int \<times> int \<Rightarrow> RankInfo list \<Rightarrow> RankInfo list" where
  "GetDenseTopN_loop lb n i st res =
     (if int i < n \<and> i < length (ranking lb) then
        (let entry = heap lb ! (ranking lb ! i);
             st' = dense_step i (Score entry) st
         in GetDenseTopN_loop lb n (i + 1) st' (res @ [rankInfo entry (fst st')]))
      else res)"
  by pat_completeness auto
termination
  by (relation "measure (\<lambda>(lb, n, i, st, res). length (ranking lb) - i)") auto

definition GetDenseTopN :: "int \<Rightarrow> LeaderboardService \<Rightarrow> int \<Rightarrow> panic + RankInfo list" where
  "GetDenseTopN maxcap lb n =
     (if makeslice_panics maxcap n then Inl MakeSliceCapOutOfRange
      else Inr (GetDenseTopN_loop lb n 0 (1, - 1) []))"

text \<open>
  The first loop of \<open>GetPlayerDenseRankRange\<close>, which fills \<open>denseRanks\<close>. The slice is made
  with the length of \<open>lb.ranking\<close>, an existing slice of elements of the same size, so this
  \<open>make\<close> does not panic; the list is built element by element.
\<close>

fun denseRanks_loop :: "PlayerEntry list \<Rightarrow> addr list \<Rightarrow> nat \<Rightarrow> int \<times> int \<Rightarrow> int list" where
  "denseRanks_loop h [] i st = []"
| "denseRanks_loop h (e # es) i st =
     (let st' = dense_step i (Score (h ! e)) st
      in fst st' # denseRanks_loop h es (i + 1) st')"

text \<open>The second loop: the dense rank at the player's position, 0 when it is not found.\<close>

fun playerDenseRank_loop :: "int list \<Rightarrow> addr list \<Rightarrow> nat \<Rightarrow> addr \<Rightarrow> int" where
  "playerDenseRank_loop denseRanks [] i entry = 0"
| "playerDenseRank_loop denseRanks (e # es) i entry =
     (if e = entry then denseRanks ! i
      else playerDenseRank_loop denseRanks es (i + 1) entry)"

text \<open>The third loop, over the dense ranks from index \<open>i\<close> on.\<close>

fun denseRange_loop ::
  "LeaderboardService \<Rightarrow> int list \<Rightarrow> nat \<Rightarrow> int \<Rightarrow> int \<Rightarrow> RankInfo list" where
  "denseRange_loop lb [] i playerDenseRank rng = []"
| "denseRange_loop lb (r # rs) i playerDenseRank rng =
     (if r \<ge> sub64 playerDenseRank rng \<and> r \<le> add64 playerDenseRank rng
      then rankInfo (heap lb ! (ranking lb ! i)) r
             # denseRange_loop lb rs (i + 1) playerDenseRank rng
      else denseRange_loop lb rs (i + 1) playerDenseRank rng)"

definition GetPlayerDenseRankRange ::
  "int \<Rightarrow> LeaderboardService \<Rightarrow> string \<Rightarrow> int \<Rightarrow> panic + RankInfo list option" where
  "GetPlayerDenseRankRange maxcap lb playerId rng =
     (case players lb playerId of
        None \<Rightarrow> Inr None
      | Some entry \<Rightarrow>
          (let denseRanks = denseRanks_loop (heap lb) (ranking lb) 0 (1, - 1);
               playerDenseRank = playerDenseRank_loop denseRanks (ranking lb) 0 entry
           in if makeslice_panics maxcap (add64 (mul64 2 rng) 1)
              then Inl MakeSliceCapOutOfRange
              else Inr (Some (denseRange_loop lb denseRanks 0 playerDenseRank rng))))"

subsection \<open>Reachable states\<close>

text \<open>A call of \<open>UpdateScore\<close> is its three arguments; \<open>run\<close> makes the calls in order
  on the empty service.\<close>

type_synonym call = "string \<times> int \<times> int"

definition step :: "LeaderboardService \<Rightarrow> call \<Rightarrow> LeaderboardService" where
  "step lb c = (case c of (playerId, score, timestamp) \<Rightarrow> UpdateScore lb playerId score timestamp)"

definition run :: "call list \<Rightarrow> LeaderboardService" where
  "run calls = foldl step NewLeaderboardService calls"

text \<open>The entries of the ordered sequence, read through their pointers.\<close>

definition entries :: "LeaderboardService \<Rightarrow> PlayerEntry list" where
  "entries lb = map (\<lambda>a. heap lb ! a) (ranking lb)"

subsection \<open>The comparator and the invariant\<close>

text \<open>The order of the ranking: higher score first, among equal scores the earlier
  timestamp first.\<close>

definition comparator :: "PlayerEntry \<Rightarrow> PlayerEntry \<Rightarrow> bool" where
  "comparator a b = (Score a > Score b \<or> (Score a = Score b \<and> Timestamp a \<le> Timestamp b))"

text \<open>The index that \<open>insertToRanking\<close> computes, on the entries themselves.\<close>

definition insert_idx :: "PlayerEntry list \<Rightarrow> PlayerEntry \<Rightarrow> nat" where
  "insert_idx ks e = Search (length ks) (\<lambda>i. insertToRanking_pred (ks ! i) e)"

text \<open>
  The invariant of the reachable states: the ranking holds every pointer of the map once,
  every pointer is allocated and leads to the entry of its own player, and the entries
  are in the comparator's order.
\<close>

definition wf :: "LeaderboardService \<Rightarrow> bool" where
  "wf lb \<longleftrightarrow>
     distinct (ranking lb) \<and> set (ranking lb) = ran (players lb)
     \<and> (\<forall>p a. players lb p = Some a \<longrightarrow> a < length (heap lb) \<and> PlayerID (heap lb ! a) = p)
     \<and> sorted_wrt comparator (entries lb)"

text \<open>
  The pointer that \<open>UpdateScore\<close> inserts for a player (the one in the map, or the next
  one to be allocated), and the ranking without it.
\<close>

definition target :: "LeaderboardService \<Rightarrow> string \<Rightarrow> addr" where
  "target lb p = (case players lb p of Some a \<Rightarrow> a | None \<Rightarrow> length (heap lb))"

definition rest :: "LeaderboardService \<Rightarrow> string \<Rightarrow> addr list" where
  "rest lb p = remove1 (target lb p) (ranking lb)"

definition rest_entries :: "LeaderboardService \<Rightarrow> string \<Rightarrow> PlayerEntry list" where
  "rest_entries lb p = map (\<lambda>a. heap lb ! a) (rest lb p)"

text \<open>The result entry for position \<open>i\<close> of the ordered sequence, with standard rank \<open>i + 1\<close>.\<close>

definition stdInfo :: "LeaderboardService \<Rightarrow> nat \<Rightarrow> RankInfo" where
  "stdInfo lb i = rankInfo (entries lb ! i) (int i + 1)"

subsection \<open>Dense ranks: the reference definition\<close>

text \<open>
  The dense rank as the specification words it: one more than the number of distinct score
  values strictly greater than the score at position \<open>i\<close>, among the entries enumerated so
  far (positions \<open>0\<close> to \<open>i\<close>) of the score sequence.
\<close>

definition dense_rank_ref :: "int list \<Rightarrow> nat \<Rightarrow> int" where
  "dense_rank_ref scores i =
     1 + int (card (set (filter (\<lambda>s. s > scores ! i) (take (i + 1) scores))))"

text \<open>The scores of the ordered sequence, and the result entry for position \<open>i\<close> with
  its reference dense rank.\<close>

definition scores :: "LeaderboardService \<Rightarrow> int list" where
  "scores lb = map Score (entries lb)"

definition denseInfo :: "LeaderboardService \<Rightarrow> nat \<Rightarrow> RankInfo" where
  "denseInfo lb i = rankInfo (entries lb ! i) (dense_rank_ref (scores lb) i)"

text \<open>
  The pair \<open>(rank, prevScore)\<close> of the dense-rank loops when they reach position \<open>i\<close> of
  a score sequence.
\<close>

definition dstate :: "int list \<Rightarrow> nat \<Rightarrow> int \<times> int" where
  "dstate xs i = (if i = 0 then (1, - 1) else (dense_rank_ref xs (i - 1), xs ! (i - 1)))"

declare Search_loop.simps [simp del]
declare GetTopN_loop.simps [simp del]
declare GetPlayerRankRange_loop.simps [simp del]
declare GetDenseTopN_loop.simps [simp del]

section \<open>Binary search\<close>

lemma Search_loop_spec:
  assumes "\<And>a b. a \<le> b \<Longrightarrow> b < n \<Longrightarrow> f a \<Longrightarrow> f b"
    and "i \<le> j" and "j \<le> n"
    and "\<And>k. k < i \<Longrightarrow> \<not> f k"
    and "\<And>k. j \<le> k \<Longrightarrow> k < n \<Longrightarrow> f k"
  shows "i \<le> Search_loop f i j \<and> Search_loop f i j \<le> j
         \<and> (\<forall>k < Search_loop f i j. \<not> f k)
         \<and> (\<forall>k. Search_loop f i j \<le> k \<longrightarrow> k < n \<longrightarrow> f k)"
  using assms
proof (induction f i j rule: Search_loop.induct)
  case (1 f i j)
  show ?case
  proof (cases "i < j")
    case False
    then have "Search_loop f i j = i" by (subst Search_loop.simps) simp
    moreover have "i = j" using False "1.prems"(2) by simp
    ultimately show ?thesis using "1.prems"(4,5) by simp
  next
    case True
    define h where "h = (i + j) div 2"
    have hb: "i \<le> h" "h < j" using True by (simp_all add: h_def)
    show ?thesis
    proof (cases "f h")
      case fh: False
      have below: "\<And>k. k < h + 1 \<Longrightarrow> \<not> f k"
      proof
        fix k assume "k < h + 1" "f k"
        moreover have "k \<le> h" "h < n" using \<open>k < h + 1\<close> hb "1.prems"(3) by simp_all
        ultimately have "f h" using "1.prems"(1)[of k h] by blast
        with fh show False by simp
      qed
      have eq: "Search_loop f i j = Search_loop f (h + 1) j"
        using True fh by (subst Search_loop.simps) (simp add: h_def Let_def)
      have "h + 1 \<le> Search_loop f (h + 1) j \<and> Search_loop f (h + 1) j \<le> j
         \<and> (\<forall>k < Search_loop f (h + 1) j. \<not> f k)
         \<and> (\<forall>k. Search_loop f (h + 1) j \<le> k \<longrightarrow> k < n \<longrightarrow> f k)"
      proof (rule "1.IH"(1)[OF True h_def fh])
        show "\<And>a b. a \<le> b \<Longrightarrow> b < n \<Longrightarrow> f a \<Longrightarrow> f b" by (rule "1.prems"(1))
        show "h + 1 \<le> j" using hb by simp
        show "j \<le> n" by (rule "1.prems"(3))
        show "\<And>k. k < h + 1 \<Longrightarrow> \<not> f k" by (rule below)
        show "\<And>k. j \<le> k \<Longrightarrow> k < n \<Longrightarrow> f k" by (rule "1.prems"(5))
      qed
      with eq hb show ?thesis by simp
    next
      case fh: True
      have above: "\<And>k. h \<le> k \<Longrightarrow> k < n \<Longrightarrow> f k"
        using "1.prems"(1) fh by blast
      have eq: "Search_loop f i j = Search_loop f i h"
        using True fh by (subst Search_loop.simps) (simp add: h_def Let_def)
      have "i \<le> Search_loop f i h \<and> Search_loop f i h \<le> h
         \<and> (\<forall>k < Search_loop f i h. \<not> f k)
         \<and> (\<forall>k. Search_loop f i h \<le> k \<longrightarrow> k < n \<longrightarrow> f k)"
      proof (rule "1.IH"(2)[OF True h_def])
        show "\<not> \<not> f h" using fh by simp
        show "\<And>a b. a \<le> b \<Longrightarrow> b < n \<Longrightarrow> f a \<Longrightarrow> f b" by (rule "1.prems"(1))
        show "i \<le> h" by (rule hb(1))
        show "h \<le> n" using hb "1.prems"(3) by simp
        show "\<And>k. k < i \<Longrightarrow> \<not> f k" by (rule "1.prems"(4))
        show "\<And>k. h \<le> k \<Longrightarrow> k < n \<Longrightarrow> f k" by (rule above)
      qed
      with eq hb show ?thesis by simp
    qed
  qed
qed

lemma Search_spec:
  assumes "\<And>a b. a \<le> b \<Longrightarrow> b < n \<Longrightarrow> f a \<Longrightarrow> f b"
  shows "Search n f \<le> n" and "\<And>k. k < Search n f \<Longrightarrow> \<not> f k"
    and "\<And>k. Search n f \<le> k \<Longrightarrow> k < n \<Longrightarrow> f k"
proof -
  have *: "0 \<le> Search_loop f 0 n \<and> Search_loop f 0 n \<le> n
         \<and> (\<forall>k < Search_loop f 0 n. \<not> f k)
         \<and> (\<forall>k. Search_loop f 0 n \<le> k \<longrightarrow> k < n \<longrightarrow> f k)"
  proof (rule Search_loop_spec[where n = n])
    show "\<And>a b. a \<le> b \<Longrightarrow> b < n \<Longrightarrow> f a \<Longrightarrow> f b" by (rule assms)
  qed simp_all
  show "Search n f \<le> n" using * by (simp add: Search_def)
  show "\<And>k. k < Search n f \<Longrightarrow> \<not> f k" using * by (simp add: Search_def)
  show "\<And>k. Search n f \<le> k \<Longrightarrow> k < n \<Longrightarrow> f k" using * by (simp add: Search_def)
qed

section \<open>Insertion keeps the order\<close>

lemma pred_alt:
  "insertToRanking_pred x e \<longleftrightarrow>
     Score x < Score e \<or> (Score x = Score e \<and> Timestamp e < Timestamp x)"
  by (simp add: insertToRanking_pred_def)

lemma pred_iff_not_comparator: "insertToRanking_pred x e \<longleftrightarrow> \<not> comparator x e"
  unfolding pred_alt comparator_def by linarith

lemma pred_imp_comparator: "insertToRanking_pred x e \<Longrightarrow> comparator e x"
  unfolding pred_alt comparator_def by linarith

lemma comparator_trans: "comparator a b \<Longrightarrow> comparator b c \<Longrightarrow> comparator a c"
  unfolding comparator_def by linarith

lemma pred_mono: "comparator a b \<Longrightarrow> insertToRanking_pred a e \<Longrightarrow> insertToRanking_pred b e"
  unfolding pred_alt comparator_def by linarith

lemma pred_mono_sorted:
  assumes "sorted_wrt comparator ks" "a \<le> b" "b < length ks" "insertToRanking_pred (ks ! a) e"
  shows "insertToRanking_pred (ks ! b) e"
proof (cases "a = b")
  case True with assms show ?thesis by simp
next
  case False
  then have "comparator (ks ! a) (ks ! b)"
    using assms by (simp add: sorted_wrt_iff_nth_less)
  then show ?thesis using assms(4) by (rule pred_mono)
qed

lemma insert_idx_spec:
  assumes "sorted_wrt comparator ks"
  shows "insert_idx ks e \<le> length ks"
    and "\<And>k. k < insert_idx ks e \<Longrightarrow> comparator (ks ! k) e"
    and "\<And>k. insert_idx ks e \<le> k \<Longrightarrow> k < length ks \<Longrightarrow> insertToRanking_pred (ks ! k) e"
proof -
  let ?f = "\<lambda>i. insertToRanking_pred (ks ! i) e"
  have mono: "\<And>a b. a \<le> b \<Longrightarrow> b < length ks \<Longrightarrow> ?f a \<Longrightarrow> ?f b"
    using assms by (rule pred_mono_sorted)
  show "insert_idx ks e \<le> length ks"
    unfolding insert_idx_def by (rule Search_spec(1)) (rule mono)
  show "\<And>k. k < insert_idx ks e \<Longrightarrow> comparator (ks ! k) e"
  proof -
    fix k assume "k < insert_idx ks e"
    then have "\<not> ?f k"
      unfolding insert_idx_def by (rule Search_spec(2)[of "length ks" ?f, rotated]) (rule mono)
    then show "comparator (ks ! k) e" by (simp add: pred_iff_not_comparator)
  qed
  show "\<And>k. insert_idx ks e \<le> k \<Longrightarrow> k < length ks \<Longrightarrow> insertToRanking_pred (ks ! k) e"
  proof -
    fix k assume "insert_idx ks e \<le> k" "k < length ks"
    then show "?f k"
      unfolding insert_idx_def by (rule Search_spec(3)[of "length ks" ?f, rotated]) (rule mono)
  qed
qed

lemma insert_sorted:
  assumes "sorted_wrt comparator ks"
  shows "sorted_wrt comparator (take (insert_idx ks e) ks @ e # drop (insert_idx ks e) ks)"
proof -
  let ?i = "insert_idx ks e"
  have s: "sorted_wrt comparator (take ?i ks)" "sorted_wrt comparator (drop ?i ks)"
    using assms by simp_all
  have a: "\<forall>x \<in> set (take ?i ks). comparator x e"
    using insert_idx_spec(1,2)[OF assms, where e = e] by (auto simp: in_set_conv_nth)
  have b: "\<forall>y \<in> set (drop ?i ks). comparator e y"
  proof
    fix y assume "y \<in> set (drop ?i ks)"
    then obtain k where "k < length ks - ?i" "y = ks ! (?i + k)"
      by (auto simp: in_set_conv_nth)
    then show "comparator e y"
      using insert_idx_spec(3)[OF assms, of e "?i + k"] by (simp add: pred_imp_comparator)
  qed
  have c: "\<forall>x \<in> set (take ?i ks). \<forall>y \<in> set (drop ?i ks). comparator x y"
    using a b comparator_trans by blast
  show ?thesis using s a b c by (simp add: sorted_wrt_append)
qed

section \<open>Removal and insertion on the ranking\<close>

lemma Search_loop_cong:
  "(\<And>k. i \<le> k \<Longrightarrow> k < j \<Longrightarrow> f k = g k) \<Longrightarrow> Search_loop f i j = Search_loop g i j"
proof (induction f i j rule: Search_loop.induct)
  case (1 f i j)
  show ?case
  proof (cases "i < j")
    case False
    then show ?thesis by (simp add: Search_loop.simps[of f i j] Search_loop.simps[of g i j])
  next
    case True
    define h where "h = (i + j) div 2"
    have hb: "i \<le> h" "h < j" using True by (simp_all add: h_def)
    have fg: "f h = g h" using "1.prems" hb by simp
    show ?thesis
    proof (cases "f h")
      case False
      have "Search_loop f (h + 1) j = Search_loop g (h + 1) j"
        using "1.IH"(1)[OF True h_def False] "1.prems" hb by simp
      then show ?thesis using True False fg
        by (simp add: Search_loop.simps[of f i j] Search_loop.simps[of g i j] h_def Let_def)
    next
      case fh: True
      have "Search_loop f i h = Search_loop g i h"
        using "1.IH"(2)[OF True h_def] fh "1.prems" hb by simp
      then show ?thesis using True fh fg
        by (simp add: Search_loop.simps[of f i j] Search_loop.simps[of g i j] h_def Let_def)
    qed
  qed
qed

lemma Search_cong: "(\<And>k. k < n \<Longrightarrow> f k = g k) \<Longrightarrow> Search n f = Search n g"
  unfolding Search_def by (rule Search_loop_cong) simp

lemma removeFromRanking_loop_eq:
  "removeFromRanking_loop (pre @ es) (length pre) es entry = pre @ remove1 entry es"
proof (induction es arbitrary: pre)
  case Nil
  show ?case by simp
next
  case (Cons e es)
  show ?case
  proof (cases "e = entry")
    case True
    then show ?thesis by simp
  next
    case False
    have "removeFromRanking_loop ((pre @ [e]) @ es) (length (pre @ [e])) es entry
            = (pre @ [e]) @ remove1 entry es"
      by (rule Cons.IH)
    then show ?thesis using False by simp
  qed
qed

lemma ranking_removeFromRanking [simp]:
  "ranking (removeFromRanking lb a) = remove1 a (ranking lb)"
  using removeFromRanking_loop_eq[of "[]" "ranking lb" a]
  by (simp add: removeFromRanking_def)

lemma heap_removeFromRanking [simp]: "heap (removeFromRanking lb a) = heap lb"
  by (simp add: removeFromRanking_def)

lemma players_removeFromRanking [simp]: "players (removeFromRanking lb a) = players lb"
  by (simp add: removeFromRanking_def)

lemma insertToRanking_idx:
  "Search (length (ranking lb))
      (\<lambda>i. insertToRanking_pred (heap lb ! (ranking lb ! i)) (heap lb ! a))
   = insert_idx (entries lb) (heap lb ! a)"
  unfolding insert_idx_def entries_def
  by (simp, rule Search_cong) simp

lemma ranking_insertToRanking:
  "ranking (insertToRanking lb a) =
     take (insert_idx (entries lb) (heap lb ! a)) (ranking lb)
       @ a # drop (insert_idx (entries lb) (heap lb ! a)) (ranking lb)"
  by (simp add: insertToRanking_def insertToRanking_idx Let_def)

lemma heap_insertToRanking [simp]: "heap (insertToRanking lb a) = heap lb"
  by (simp add: insertToRanking_def Let_def)

lemma players_insertToRanking [simp]: "players (insertToRanking lb a) = players lb"
  by (simp add: insertToRanking_def Let_def)

lemma entries_insertToRanking:
  "entries (insertToRanking lb a) =
     take (insert_idx (entries lb) (heap lb ! a)) (entries lb)
       @ (heap lb ! a) # drop (insert_idx (entries lb) (heap lb ! a)) (entries lb)"
  by (simp add: entries_def ranking_insertToRanking take_map drop_map)

section \<open>What \<open>UpdateScore\<close> does to a well-formed state\<close>

lemma wf_players_lt: "wf lb \<Longrightarrow> players lb p = Some a \<Longrightarrow> a < length (heap lb)"
  by (simp add: wf_def)

lemma wf_players_id: "wf lb \<Longrightarrow> players lb p = Some a \<Longrightarrow> PlayerID (heap lb ! a) = p"
  by (simp add: wf_def)

lemma wf_ranking_players: "wf lb \<Longrightarrow> a \<in> set (ranking lb) \<longleftrightarrow> (\<exists>p. players lb p = Some a)"
  by (auto simp: wf_def ran_def)

lemma wf_ranking_lt: "wf lb \<Longrightarrow> a \<in> set (ranking lb) \<Longrightarrow> a < length (heap lb)"
  using wf_ranking_players wf_players_lt by blast

lemma wf_distinct: "wf lb \<Longrightarrow> distinct (ranking lb)"
  by (simp add: wf_def)

lemma wf_sorted: "wf lb \<Longrightarrow> sorted_wrt comparator (entries lb)"
  by (simp add: wf_def)

lemma target_notin_rest: "wf lb \<Longrightarrow> target lb p \<notin> set (remove1 (target lb p) (ranking lb))"
  by (simp add: wf_distinct)

lemma target_new: "players lb p = None \<Longrightarrow> target lb p = length (heap lb)"
  by (simp add: target_def)

lemma target_old: "players lb p = Some a \<Longrightarrow> target lb p = a"
  by (simp add: target_def)

lemma target_new_notin: "wf lb \<Longrightarrow> players lb p = None \<Longrightarrow> target lb p \<notin> set (ranking lb)"
  using wf_ranking_lt[of lb "length (heap lb)"] by (auto simp: target_new)

lemma sorted_wrt_remove1: "sorted_wrt P xs \<Longrightarrow> sorted_wrt P (remove1 x xs)"
proof (induction xs)
  case Nil
  show ?case by simp
next
  case (Cons y ys)
  have "set (remove1 x ys) \<subseteq> set ys" by (rule set_remove1_subset)
  with Cons show ?case by auto
qed

lemma sorted_wrt_map_remove1:
  "sorted_wrt P (map f xs) \<Longrightarrow> sorted_wrt P (map f (remove1 x xs))"
  unfolding sorted_wrt_map by (rule sorted_wrt_remove1)

lemma UpdateScore_heap_new:
  "players lb p = None \<Longrightarrow>
   heap (UpdateScore lb p s t) = heap lb @ [\<lparr>PlayerID = p, Score = s, Timestamp = t\<rparr>]"
  by (simp add: UpdateScore_def Let_def)

lemma UpdateScore_heap_old:
  "players lb p = Some a \<Longrightarrow>
   heap (UpdateScore lb p s t) = (heap lb)[a := (heap lb ! a)\<lparr>Score := s, Timestamp := t\<rparr>]"
  by (simp add: UpdateScore_def Let_def)

lemma UpdateScore_players:
  "players (UpdateScore lb p s t) = (players lb)(p \<mapsto> target lb p)"
proof (cases "players lb p")
  case None
  then show ?thesis by (simp add: UpdateScore_def Let_def target_def)
next
  case (Some a)
  then have "(players lb)(p \<mapsto> a) = players lb" by (simp add: map_upd_triv)
  with Some show ?thesis by (simp add: UpdateScore_def Let_def target_def)
qed

lemma UpdateScore_heap_target:
  assumes "wf lb"
  shows "heap (UpdateScore lb p s t) ! target lb p = \<lparr>PlayerID = p, Score = s, Timestamp = t\<rparr>"
proof (cases "players lb p")
  case None
  then show ?thesis by (simp add: UpdateScore_heap_new target_new)
next
  case (Some a)
  have "a < length (heap lb)" "PlayerID (heap lb ! a) = p"
    using assms Some by (simp_all add: wf_players_lt wf_players_id)
  then show ?thesis using Some by (simp add: UpdateScore_heap_old target_old)
qed

lemma UpdateScore_heap_other:
  assumes "b \<noteq> target lb p" "b < length (heap lb)"
  shows "heap (UpdateScore lb p s t) ! b = heap lb ! b"
proof (cases "players lb p")
  case None
  then show ?thesis using assms by (simp add: UpdateScore_heap_new nth_append)
next
  case (Some a)
  then show ?thesis using assms by (simp add: UpdateScore_heap_old target_old)
qed

lemma UpdateScore_length_heap:
  "length (heap lb) \<le> length (heap (UpdateScore lb p s t))"
  by (cases "players lb p") (simp_all add: UpdateScore_heap_new UpdateScore_heap_old)

lemma UpdateScore_target_lt:
  assumes "wf lb"
  shows "target lb p < length (heap (UpdateScore lb p s t))"
proof (cases "players lb p")
  case None
  then show ?thesis by (simp add: UpdateScore_heap_new target_new)
next
  case (Some a)
  then show ?thesis using assms by (simp add: UpdateScore_heap_old target_old wf_players_lt)
qed

lemma rest_new: "wf lb \<Longrightarrow> players lb p = None \<Longrightarrow> rest lb p = ranking lb"
  unfolding rest_def using target_new_notin by (simp add: remove1_idem)

lemma UpdateScore_ranking:
  assumes "wf lb"
  shows "ranking (UpdateScore lb p s t) =
           take (insert_idx (rest_entries lb p) \<lparr>PlayerID = p, Score = s, Timestamp = t\<rparr>) (rest lb p)
           @ target lb p #
           drop (insert_idx (rest_entries lb p) \<lparr>PlayerID = p, Score = s, Timestamp = t\<rparr>) (rest lb p)"
proof (cases "players lb p")
  case None
  let ?e = "\<lparr>PlayerID = p, Score = s, Timestamp = t\<rparr>"
  let ?lb1 = "lb\<lparr>heap := heap lb @ [?e], players := (players lb)(p \<mapsto> length (heap lb))\<rparr>"
  have U: "UpdateScore lb p s t = insertToRanking ?lb1 (length (heap lb))"
    using None by (simp add: UpdateScore_def Let_def)
  have "entries ?lb1 = map (\<lambda>a. heap lb ! a) (ranking lb)"
    using wf_ranking_lt[OF assms] by (simp add: entries_def nth_append)
  then have e1: "entries ?lb1 = rest_entries lb p"
    using assms None by (simp add: rest_entries_def rest_new)
  show ?thesis
    unfolding U ranking_insertToRanking e1
    using assms None by (simp add: rest_new target_new)
next
  case (Some a)
  let ?e = "\<lparr>PlayerID = p, Score = s, Timestamp = t\<rparr>"
  let ?h = "(heap lb)[a := (heap lb ! a)\<lparr>Score := s, Timestamp := t\<rparr>]"
  let ?lb2 = "(removeFromRanking lb a)\<lparr>heap := ?h\<rparr>"
  have U: "UpdateScore lb p s t = insertToRanking ?lb2 a"
    using Some by (simp add: UpdateScore_def Let_def)
  have r2: "ranking ?lb2 = rest lb p" using Some by (simp add: rest_def target_old)
  have anr: "a \<notin> set (rest lb p)" using target_notin_rest[OF assms, of p] Some
    by (simp add: rest_def target_old)
  have "\<forall>b \<in> set (rest lb p). ?h ! b = heap lb ! b"
  proof
    fix b assume "b \<in> set (rest lb p)"
    with \<open>a \<notin> set (rest lb p)\<close> have "a \<noteq> b" by auto
    then show "?h ! b = heap lb ! b" by simp
  qed
  then have "map (\<lambda>b. ?h ! b) (rest lb p) = map (\<lambda>b. heap lb ! b) (rest lb p)"
    by simp
  then have e2: "entries ?lb2 = rest_entries lb p"
    by (simp add: entries_def r2 rest_entries_def)
  have "a < length (heap lb)" "PlayerID (heap lb ! a) = p"
    using assms Some by (simp_all add: wf_players_lt wf_players_id)
  then have ha: "heap ?lb2 ! a = ?e" by simp
  show ?thesis
    unfolding U ranking_insertToRanking e2 ha r2
    using Some by (simp add: target_old)
qed

section \<open>The invariant holds in every reachable state\<close>

lemma set_insert_at: "set (take i xs @ a # drop i xs) = insert a (set xs)"
proof -
  have "set (take i xs) \<union> set (drop i xs) = set xs"
    by (metis append_take_drop_id set_append)
  then show ?thesis by auto
qed

lemma distinct_insert_at:
  assumes "distinct xs" "a \<notin> set xs"
  shows "distinct (take i xs @ a # drop i xs)"
proof -
  have "distinct (take i xs @ drop i xs)" using assms(1) by simp
  then have "distinct (take i xs)" "distinct (drop i xs)" "set (take i xs) \<inter> set (drop i xs) = {}"
    unfolding distinct_append by simp_all
  moreover have "a \<notin> set (take i xs)" "a \<notin> set (drop i xs)"
    using assms(2) by (auto dest: in_set_takeD in_set_dropD)
  ultimately show ?thesis by auto
qed

lemma rest_distinct: "wf lb \<Longrightarrow> distinct (rest lb p)"
  by (simp add: rest_def wf_distinct)

lemma rest_notin: "wf lb \<Longrightarrow> target lb p \<notin> set (rest lb p)"
  unfolding rest_def by (rule target_notin_rest)

lemma rest_subset: "set (rest lb p) \<subseteq> set (ranking lb)"
  unfolding rest_def by (rule set_remove1_subset)

lemma rest_entries_sorted: "wf lb \<Longrightarrow> sorted_wrt comparator (rest_entries lb p)"
  unfolding rest_entries_def rest_def
  using wf_sorted[of lb] by (simp add: entries_def sorted_wrt_map_remove1)

lemma UpdateScore_heap_rest:
  assumes "wf lb" "b \<in> set (rest lb p)"
  shows "heap (UpdateScore lb p s t) ! b = heap lb ! b"
proof (rule UpdateScore_heap_other)
  show "b \<noteq> target lb p" using rest_notin[OF assms(1), of p] assms(2) by auto
  show "b < length (heap lb)" using assms rest_subset wf_ranking_lt by blast
qed

lemma UpdateScore_entries:
  assumes "wf lb"
  shows "entries (UpdateScore lb p s t) =
           take (insert_idx (rest_entries lb p) \<lparr>PlayerID = p, Score = s, Timestamp = t\<rparr>)
                (rest_entries lb p)
           @ \<lparr>PlayerID = p, Score = s, Timestamp = t\<rparr> #
           drop (insert_idx (rest_entries lb p) \<lparr>PlayerID = p, Score = s, Timestamp = t\<rparr>)
                (rest_entries lb p)"
proof -
  let ?U = "UpdateScore lb p s t"
  have m: "map (\<lambda>a. heap ?U ! a) (rest lb p) = rest_entries lb p"
    unfolding rest_entries_def using UpdateScore_heap_rest[OF assms] by simp
  show ?thesis
    unfolding entries_def UpdateScore_ranking[OF assms]
    by (simp add: take_map[symmetric] drop_map[symmetric] m UpdateScore_heap_target[OF assms]
             del: take_map drop_map)
qed

lemma UpdateScore_set_ranking:
  assumes "wf lb"
  shows "set (ranking (UpdateScore lb p s t)) = insert (target lb p) (set (ranking lb))"
proof -
  have "set (ranking (UpdateScore lb p s t)) = insert (target lb p) (set (rest lb p))"
    unfolding UpdateScore_ranking[OF assms] by (rule set_insert_at)
  also have "\<dots> = insert (target lb p) (set (ranking lb))"
    unfolding rest_def using wf_distinct[OF assms] by (auto simp: set_remove1_eq)
  finally show ?thesis .
qed

lemma wf_UpdateScore:
  assumes "wf lb"
  shows "wf (UpdateScore lb p s t)"
proof -
  let ?U = "UpdateScore lb p s t"
  let ?a = "target lb p"
  have d: "distinct (ranking ?U)"
    unfolding UpdateScore_ranking[OF assms]
    by (rule distinct_insert_at) (rule rest_distinct[OF assms], rule rest_notin[OF assms])
  have r: "set (ranking ?U) = ran (players ?U)"
  proof (cases "players lb p")
    case None
    then have "ran (players ?U) = insert ?a (ran (players lb))"
      by (simp add: UpdateScore_players)
    then show ?thesis using assms by (simp add: UpdateScore_set_ranking wf_def)
  next
    case (Some a)
    then have "players ?U = players lb" by (simp add: UpdateScore_players target_old map_upd_triv)
    moreover have "a \<in> set (ranking lb)" using assms Some wf_ranking_players by blast
    ultimately show ?thesis using assms Some
      by (simp add: UpdateScore_set_ranking target_old insert_absorb wf_def)
  qed
  have h: "\<forall>q b. players ?U q = Some b \<longrightarrow>
             b < length (heap ?U) \<and> PlayerID (heap ?U ! b) = q"
  proof (intro allI impI)
    fix q b assume qb: "players ?U q = Some b"
    show "b < length (heap ?U) \<and> PlayerID (heap ?U ! b) = q"
    proof (cases "q = p")
      case True
      then have "b = ?a" using qb by (simp add: UpdateScore_players)
      then show ?thesis using True UpdateScore_target_lt[OF assms, of p s t]
        by (simp add: UpdateScore_heap_target[OF assms])
    next
      case False
      then have old: "players lb q = Some b" using qb by (simp add: UpdateScore_players)
      then have lt: "b < length (heap lb)" and pid: "PlayerID (heap lb ! b) = q"
        using assms by (simp_all add: wf_players_lt wf_players_id)
      have ne: "b \<noteq> ?a"
      proof (cases "players lb p")
        case None
        then show ?thesis using lt by (simp add: target_new)
      next
        case (Some a)
        then have "PlayerID (heap lb ! a) = p" using assms by (simp add: wf_players_id)
        then show ?thesis using pid False Some by (auto simp: target_old)
      qed
      have "heap ?U ! b = heap lb ! b" using ne lt by (rule UpdateScore_heap_other)
      moreover have "b < length (heap ?U)"
        using lt UpdateScore_length_heap[of lb p s t] by simp
      ultimately show ?thesis using pid by simp
    qed
  qed
  have s: "sorted_wrt comparator (entries ?U)"
    unfolding UpdateScore_entries[OF assms]
    by (rule insert_sorted) (rule rest_entries_sorted[OF assms])
  show ?thesis unfolding wf_def using d r h s by blast
qed

lemma wf_New: "wf NewLeaderboardService"
  by (simp add: wf_def NewLeaderboardService_def entries_def)

lemma run_Nil: "run [] = NewLeaderboardService"
  by (simp add: run_def)

lemma run_snoc: "run (calls @ [(p, s, t)]) = UpdateScore (run calls) p s t"
  by (simp add: run_def step_def)

lemma wf_run: "wf (run calls)"
proof (induction calls rule: rev_induct)
  case Nil
  show ?case by (simp add: run_Nil wf_New)
next
  case (snoc c calls)
  obtain p s t where "c = (p, s, t)" by (cases c) auto
  then show ?case using snoc by (simp add: run_snoc wf_UpdateScore)
qed

lemma dom_run: "dom (players (run calls)) = fst ` set calls"
proof (induction calls rule: rev_induct)
  case Nil
  show ?case by (simp add: run_Nil NewLeaderboardService_def)
next
  case (snoc c calls)
  obtain p s t where c: "c = (p, s, t)" by (cases c) auto
  have "dom (players (UpdateScore (run calls) p s t)) = insert p (dom (players (run calls)))"
    unfolding UpdateScore_players by simp
  then show ?case unfolding c run_snoc using snoc.IH by simp
qed

lemma wf_ids_inj: 
  assumes "wf lb"
  shows "inj_on (\<lambda>a. PlayerID (heap lb ! a)) (set (ranking lb))"
proof (rule inj_onI)
  fix a b assume a: "a \<in> set (ranking lb)" and b: "b \<in> set (ranking lb)"
    and eq: "PlayerID (heap lb ! a) = PlayerID (heap lb ! b)"
  obtain p where p: "players lb p = Some a" using a assms wf_ranking_players by blast
  obtain q where q: "players lb q = Some b" using b assms wf_ranking_players by blast
  have "p = q" using wf_players_id[OF assms p] wf_players_id[OF assms q] eq by simp
  then show "a = b" using p q by simp
qed

lemma wf_ids_distinct: "wf lb \<Longrightarrow> distinct (map PlayerID (entries lb))"
  unfolding entries_def using wf_ids_inj[of lb] wf_distinct[of lb]
  by (simp add: distinct_map comp_def)

lemma wf_ids_set: 
  assumes "wf lb"
  shows "set (map PlayerID (entries lb)) = dom (players lb)"
proof -
  have "\<And>p. p \<in> set (map PlayerID (entries lb)) \<longleftrightarrow> p \<in> dom (players lb)"
  proof
    fix p assume "p \<in> set (map PlayerID (entries lb))"
    then obtain a where a: "a \<in> set (ranking lb)" "p = PlayerID (heap lb ! a)"
      by (auto simp: entries_def)
    then obtain q where q: "players lb q = Some a" using assms wf_ranking_players by blast
    then have "q = p" using wf_players_id[OF assms q] a by simp
    then show "p \<in> dom (players lb)" using q by auto
  next
    fix p assume "p \<in> dom (players lb)"
    then obtain a where a: "players lb p = Some a" by auto
    then have "a \<in> set (ranking lb)" using assms wf_ranking_players by blast
    moreover have "PlayerID (heap lb ! a) = p" using wf_players_id[OF assms a] .
    ultimately show "p \<in> set (map PlayerID (entries lb))" by (force simp: entries_def)
  qed
  then show ?thesis by blast
qed

lemma wf_population: 
  assumes "wf lb"
  shows "length (ranking lb) = card (dom (players lb))"
proof -
  have "card (dom (players lb)) = card (set (map PlayerID (entries lb)))"
    using wf_ids_set[OF assms] by simp
  also have "\<dots> = length (map PlayerID (entries lb))"
    using wf_ids_distinct[OF assms] by (rule distinct_card)
  also have "\<dots> = length (ranking lb)" by (simp add: entries_def)
  finally show ?thesis by simp
qed

section \<open>Standard-rank queries on a well-formed state\<close>

lemma entries_nth: "i < length (ranking lb) \<Longrightarrow> entries lb ! i = heap lb ! (ranking lb ! i)"
  by (simp add: entries_def)

lemma length_entries [simp]: "length (entries lb) = length (ranking lb)"
  by (simp add: entries_def)

lemma findRank_loop_nth:
  "distinct xs \<Longrightarrow> k < length xs \<Longrightarrow> findRank_loop xs i (xs ! k) = i + int k"
proof (induction xs arbitrary: i k)
  case Nil
  then show ?case by simp
next
  case (Cons x xs)
  show ?case
  proof (cases k)
    case 0
    then show ?thesis by simp
  next
    case (Suc k')
    then have k': "k' < length xs" using Cons.prems by simp
    then have "xs ! k' \<in> set xs" by simp
    then have ne: "x \<noteq> xs ! k'" using Cons.prems(1) by auto
    have "findRank_loop xs (i + 1) (xs ! k') = i + 1 + int k'"
      using Cons.IH[OF _ k'] Cons.prems(1) by simp
    then show ?thesis using Suc ne by simp
  qed
qed

lemma wf_position:
  assumes "wf lb" "k < length (ranking lb)" "PlayerID (entries lb ! k) = pid"
  shows "players lb pid = Some (ranking lb ! k)"
proof -
  have "ranking lb ! k \<in> set (ranking lb)" using assms(2) by simp
  then obtain q where q: "players lb q = Some (ranking lb ! k)"
    using assms(1) wf_ranking_players by blast
  then have "PlayerID (heap lb ! (ranking lb ! k)) = q" using assms(1) by (rule wf_players_id[rotated])
  then have "q = pid" using assms(2,3) by (simp add: entries_nth)
  then show ?thesis using q by simp
qed

lemma wf_known_position:
  assumes "wf lb" "players lb pid = Some a"
  shows "\<exists>k < length (ranking lb). ranking lb ! k = a \<and> PlayerID (entries lb ! k) = pid"
proof -
  have "a \<in> set (ranking lb)" using assms wf_ranking_players by blast
  then obtain k where k: "k < length (ranking lb)" "ranking lb ! k = a"
    by (auto simp: in_set_conv_nth)
  moreover have "PlayerID (entries lb ! k) = pid"
    using k wf_players_id[OF assms] by (simp add: entries_nth)
  ultimately show ?thesis by blast
qed

lemma wf_findRank:
  assumes "wf lb" "k < length (ranking lb)"
  shows "findRank lb (ranking lb ! k) = int k"
  unfolding findRank_def using findRank_loop_nth[OF wf_distinct[OF assms(1)] assms(2), of 0] by simp

lemma GetTopN_loop_eq:
  "GetTopN_loop lb n i res =
     res @ map (stdInfo lb) [i ..< min (nat n) (length (ranking lb))]"
proof (induction lb n i res rule: GetTopN_loop.induct)
  case (1 lb n i res)
  show ?case
  proof (cases "int i < n \<and> i < length (ranking lb)")
    case True
    then have lt: "i < min (nat n) (length (ranking lb))" by linarith
    have "GetTopN_loop lb n i res = GetTopN_loop lb n (i + 1) (res @ [stdInfo lb i])"
      using True by (subst GetTopN_loop.simps) (simp add: stdInfo_def entries_nth)
    also have "\<dots> = (res @ [stdInfo lb i])
                 @ map (stdInfo lb) [i + 1 ..< min (nat n) (length (ranking lb))]"
      using "1.IH"[OF True refl] by (simp add: stdInfo_def entries_nth True)
    also have "\<dots> = res @ map (stdInfo lb) [i ..< min (nat n) (length (ranking lb))]"
      using lt by (simp add: upt_conv_Cons)
    finally show ?thesis .
  next
    case False
    then have "min (nat n) (length (ranking lb)) \<le> i" by auto
    then have "[i ..< min (nat n) (length (ranking lb))] = []" by simp
    moreover have "GetTopN_loop lb n i res = res"
      using False by (subst GetTopN_loop.simps) auto
    ultimately show ?thesis by simp
  qed
qed

lemma GetTopN_eq:
  "0 \<le> n \<Longrightarrow> n \<le> maxcap \<Longrightarrow>
   GetTopN maxcap lb n = Inr (map (stdInfo lb) [0 ..< min (nat n) (length (ranking lb))])"
  by (simp add: GetTopN_def makeslice_panics_def GetTopN_loop_eq)

lemma GetPlayerRankRange_loop_eq:
  "0 \<le> i \<Longrightarrow> endi < int (length (ranking lb)) \<Longrightarrow>
   GetPlayerRankRange_loop lb i endi res =
     Inr (res @ map (stdInfo lb) [nat i ..< nat (endi + 1)])"
proof (induction lb i endi res rule: GetPlayerRankRange_loop.induct)
  case (1 lb i endi res)
  show ?case
  proof (cases "i \<le> endi")
    case True
    then have inr: "0 \<le> i \<and> i < int (length (ranking lb))" using "1.prems" by simp
    have "nat i < length (ranking lb)" using inr by linarith
    then have si: "rankInfo (heap lb ! (ranking lb ! nat i)) (i + 1) = stdInfo lb (nat i)"
      using inr by (simp add: stdInfo_def entries_nth)
    have "GetPlayerRankRange_loop lb i endi res =
            GetPlayerRankRange_loop lb (i + 1) endi (res @ [stdInfo lb (nat i)])"
      using True inr by (subst GetPlayerRankRange_loop.simps) (simp add: si)
    also have "\<dots> = Inr ((res @ [stdInfo lb (nat i)])
                 @ map (stdInfo lb) [nat (i + 1) ..< nat (endi + 1)])"
      using "1.IH"[OF True inr refl] "1.prems" si by simp
    also have "\<dots> = Inr (res @ map (stdInfo lb) [nat i ..< nat (endi + 1)])"
    proof -
      have "nat (i + 1) = Suc (nat i)" using inr by linarith
      moreover have "nat i < nat (endi + 1)" using True inr by linarith
      ultimately show ?thesis by (simp add: upt_conv_Cons)
    qed
    finally show ?thesis .
  next
    case False
    then have "[nat i ..< nat (endi + 1)] = []" by simp
    moreover have "GetPlayerRankRange_loop lb i endi res = Inr res"
      using False by (subst GetPlayerRankRange_loop.simps) simp
    ultimately show ?thesis by simp
  qed
qed

lemma wrap64_id: "- (2 ^ 63) \<le> x \<Longrightarrow> x < 2 ^ 63 \<Longrightarrow> wrap64 x = x"
  by (simp add: wrap64_def)

lemma GetPlayerRankRange_eq:
  assumes "wf lb" "k < length (ranking lb)" "PlayerID (entries lb ! k) = pid"
    and "0 \<le> rng" "int k + rng < 2 ^ 63" "int (length (ranking lb)) < 2 ^ 63"
    and "int (length (ranking lb)) \<le> maxcap"
  shows "GetPlayerRankRange maxcap lb pid rng =
           Inr (Some (map (stdInfo lb)
             [nat (max 0 (int k - rng)) ..< nat (min (int (length (ranking lb)) - 1) (int k + rng)) + 1]))"
proof -
  define len where "len = int (length (ranking lb))"
  define start where "start = max 0 (int k - rng)"
  define endi where "endi = min (len - 1) (int k + rng)"
  have pl: "players lb pid = Some (ranking lb ! k)" using assms(1-3) by (rule wf_position)
  have fr: "findRank lb (ranking lb ! k) = int k" using assms(1,2) by (rule wf_findRank)
  have s0: "sub64 (int k) rng = int k - rng"
    unfolding sub64_def using assms(4,5) by (intro wrap64_id) simp_all
  have e0: "add64 (int k) rng = int k + rng"
    unfolding add64_def using assms(4,5) by (intro wrap64_id) simp_all
  have st: "(if sub64 (int k) rng < 0 then 0 else sub64 (int k) rng) = start"
    unfolding s0 start_def by simp
  have en: "(if add64 (int k) rng \<ge> len then len - 1 else add64 (int k) rng) = endi"
    unfolding e0 endi_def by simp
  have b1: "0 \<le> start" "start \<le> int k" "int k \<le> endi" "endi < len" "endi < 2 ^ 63 - 1"
    using assms(2,4,6) unfolding start_def endi_def len_def by linarith+
  have "sub64 endi start = endi - start"
    unfolding sub64_def using b1 by (intro wrap64_id) linarith+
  moreover have "add64 (endi - start) 1 = endi - start + 1"
    unfolding add64_def using b1 by (intro wrap64_id) linarith+
  ultimately have v: "add64 (sub64 endi start) 1 = endi - start + 1" by simp
  have "len \<le> maxcap" unfolding len_def by (rule assms(7))
  then have "0 \<le> endi - start + 1" "endi - start + 1 \<le> maxcap" using b1 by linarith+
  then have cap: "\<not> makeslice_panics maxcap (add64 (sub64 endi start) 1)"
    unfolding makeslice_panics_def v by simp
  have loop: "GetPlayerRankRange_loop lb start endi [] =
                Inr ([] @ map (stdInfo lb) [nat start ..< nat (endi + 1)])"
    using b1(1,4) unfolding len_def by (rule GetPlayerRankRange_loop_eq)
  have n1: "nat (endi + 1) = nat endi + 1" using b1 by linarith
  have "GetPlayerRankRange maxcap lb pid rng =
          (if makeslice_panics maxcap (add64 (sub64 endi start) 1)
           then Inl MakeSliceCapOutOfRange
           else (case GetPlayerRankRange_loop lb start endi [] of
                   Inl p \<Rightarrow> Inl p | Inr res \<Rightarrow> Inr (Some res)))"
    unfolding GetPlayerRankRange_def pl option.case Let_def fr
    unfolding len_def[symmetric] st en ..
  also have "\<dots> = Inr (Some (map (stdInfo lb) [nat start ..< nat endi + 1]))"
    using cap loop n1 by simp
  finally show ?thesis unfolding start_def endi_def len_def .
qed

section \<open>Updating twice\<close>

lemma UpdateScore_twice:
  assumes "wf lb"
  shows "UpdateScore (UpdateScore lb p s t) p s t = UpdateScore lb p s t"
proof -
  let ?U = "UpdateScore lb p s t"
  let ?e = "\<lparr>PlayerID = p, Score = s, Timestamp = t\<rparr>"
  let ?a = "target lb p"
  let ?idx = "insert_idx (rest_entries lb p) ?e"
  have wfU: "wf ?U" using assms by (rule wf_UpdateScore)
  have pU: "players ?U p = Some ?a" by (simp add: UpdateScore_players)
  then have tU: "target ?U p = ?a" by (rule target_old)
  have hU: "heap ?U ! ?a = ?e" using assms by (rule UpdateScore_heap_target)
  have "(heap ?U)[?a := ?e] = heap ?U"
    using hU by (metis list_update_id)
  then have heap_eq: "heap (UpdateScore ?U p s t) = heap ?U"
    unfolding UpdateScore_heap_old[OF pU] hU by simp
  have players_eq: "players (UpdateScore ?U p s t) = players ?U"
    unfolding UpdateScore_players[of ?U] tU using pU by (simp add: map_upd_triv)
  have "?a \<notin> set (take ?idx (rest lb p))"
    using rest_notin[OF assms, of p] by (auto dest: in_set_takeD)
  then have restU: "rest ?U p = rest lb p"
    unfolding rest_def[of ?U] tU UpdateScore_ranking[OF assms]
    by (simp add: remove1_append)
  have "rest_entries ?U p = map (\<lambda>a. heap ?U ! a) (rest lb p)"
    unfolding rest_entries_def[of ?U] restU ..
  also have "\<dots> = rest_entries lb p"
    unfolding rest_entries_def[of lb] using UpdateScore_heap_rest[OF assms] by simp
  finally have restEU: "rest_entries ?U p = rest_entries lb p" .
  have ranking_eq: "ranking (UpdateScore ?U p s t) = ranking ?U"
    unfolding UpdateScore_ranking[OF wfU] restU restEU tU UpdateScore_ranking[OF assms] ..
  show ?thesis using heap_eq players_eq ranking_eq by simp
qed

lemma GetPlayerRank_known:
  assumes "wf lb" "k < length (ranking lb)" "PlayerID (entries lb ! k) = pid"
  shows "GetPlayerRank lb pid = Some (stdInfo lb k)"
  unfolding GetPlayerRank_def wf_position[OF assms] option.case Let_def
    wf_findRank[OF assms(1,2)] stdInfo_def
  using assms(2) by (simp add: entries_nth)

section \<open>The dense-rank loops compute the reference dense rank\<close>

lemma length_scores [simp]: "length (scores lb) = length (ranking lb)"
  by (simp add: scores_def)

lemma scores_nth: "i < length (ranking lb) \<Longrightarrow> scores lb ! i = Score (entries lb ! i)"
  by (simp add: scores_def)

lemma wf_scores_sorted:
  assumes "wf lb"
  shows "sorted_wrt (\<ge>) (scores lb)"
proof -
  have "sorted_wrt (\<lambda>a b. Score a \<ge> Score b) (entries lb)"
    using wf_sorted[OF assms] by (rule sorted_wrt_mono_rel[rotated]) (auto simp: comparator_def)
  then show ?thesis by (simp add: scores_def sorted_wrt_map)
qed

lemma sorted_desc_nth: "sorted_wrt (\<ge>) (xs :: int list) \<Longrightarrow> i \<le> j \<Longrightarrow> j < length xs \<Longrightarrow> xs ! i \<ge> xs ! j"
  by (cases "i = j") (auto simp: sorted_wrt_iff_nth_less)

lemma greater_prefix:
  assumes "sorted_wrt (\<ge>) (xs :: int list)" "i < length xs"
  shows "set (filter (\<lambda>s. s > xs ! i) (take (i + 1) xs)) = set (take (i + 1) xs) - {xs ! i}"
proof -
  have "\<And>s. s \<in> set (take (i + 1) xs) \<Longrightarrow> s \<ge> xs ! i"
  proof -
    fix s assume "s \<in> set (take (i + 1) xs)"
    then obtain j where "j < i + 1" "j < length xs" "s = xs ! j"
      by (auto simp: in_set_conv_nth)
    then show "s \<ge> xs ! i" using sorted_desc_nth[OF assms(1), of j i] assms(2) by simp
  qed
  then show ?thesis by fastforce
qed

lemma nth_in_prefix: "i < length xs \<Longrightarrow> xs ! i \<in> set (take (i + 1) xs)"
  by (auto simp: in_set_conv_nth intro!: exI[of _ i])

lemma dense_rank_ref_card:
  assumes "sorted_wrt (\<ge>) (xs :: int list)" "i < length xs"
  shows "dense_rank_ref xs i = int (card (set (take (i + 1) xs)))"
proof -
  have m: "xs ! i \<in> set (take (i + 1) xs)" using assms(2) by (rule nth_in_prefix)
  then have "card (set (take (i + 1) xs)) > 0" by (auto simp: card_gt_0_iff)
  moreover have "card (set (take (i + 1) xs) - {xs ! i}) = card (set (take (i + 1) xs)) - 1"
    using m by simp
  ultimately show ?thesis
    unfolding dense_rank_ref_def greater_prefix[OF assms] by simp
qed

lemma dense_rank_ref_0: "0 < length xs \<Longrightarrow> dense_rank_ref xs 0 = 1"
  by (cases xs) (simp_all add: dense_rank_ref_def)

lemma dense_rank_ref_Suc:
  assumes "sorted_wrt (\<ge>) (xs :: int list)" "i + 1 < length xs"
  shows "dense_rank_ref xs (i + 1) =
           (if xs ! (i + 1) = xs ! i then dense_rank_ref xs i else dense_rank_ref xs i + 1)"
proof -
  have i: "i < length xs" using assms(2) by simp
  have t: "take (i + 1 + 1) xs = take (i + 1) xs @ [xs ! (i + 1)]"
    using assms(2) by (simp add: take_Suc_conv_app_nth)
  have mem: "xs ! (i + 1) \<in> set (take (i + 1) xs) \<longleftrightarrow> xs ! (i + 1) = xs ! i"
  proof
    assume "xs ! (i + 1) \<in> set (take (i + 1) xs)"
    then obtain j where j: "j < i + 1" "xs ! (i + 1) = xs ! j"
      using i by (auto simp: in_set_conv_nth)
    have "xs ! j \<ge> xs ! i" using sorted_desc_nth[OF assms(1), of j i] j(1) i by simp
    moreover have "xs ! i \<ge> xs ! (i + 1)"
      using sorted_desc_nth[OF assms(1), of i "i + 1"] assms(2) by simp
    ultimately show "xs ! (i + 1) = xs ! i" using j(2) by simp
  next
    assume "xs ! (i + 1) = xs ! i"
    then show "xs ! (i + 1) \<in> set (take (i + 1) xs)" using nth_in_prefix[OF i] by simp
  qed
  have "card (set (take (i + 1 + 1) xs)) =
          (if xs ! (i + 1) = xs ! i then card (set (take (i + 1) xs))
           else card (set (take (i + 1) xs)) + 1)"
  proof (cases "xs ! (i + 1) = xs ! i")
    case True
    then have "xs ! (i + 1) \<in> set (take (i + 1) xs)" using mem by blast
    then have "insert (xs ! (i + 1)) (set (take (i + 1) xs)) = set (take (i + 1) xs)"
      by (rule insert_absorb)
    then show ?thesis unfolding t using True by simp
  next
    case False
    then have "xs ! (i + 1) \<notin> set (take (i + 1) xs)" using mem by blast
    then have "card (insert (xs ! (i + 1)) (set (take (i + 1) xs)))
                 = card (set (take (i + 1) xs)) + 1"
      by simp
    then show ?thesis unfolding t using False by simp
  qed
  then show ?thesis
    unfolding dense_rank_ref_card[OF assms] dense_rank_ref_card[OF assms(1) i] by simp
qed

lemma dense_step_dstate:
  assumes "sorted_wrt (\<ge>) (xs :: int list)" "i < length xs"
  shows "dense_step i (xs ! i) (dstate xs i) = (dense_rank_ref xs i, xs ! i)"
proof (cases i)
  case 0
  then show ?thesis using assms(2) by (simp add: dense_step_def dstate_def dense_rank_ref_0)
next
  case (Suc j)
  then have "j + 1 < length xs" using assms(2) by simp
  from dense_rank_ref_Suc[OF assms(1) this] show ?thesis
    using Suc by (simp add: dense_step_def dstate_def)
qed

lemma dstate_Suc: "dstate xs (i + 1) = (dense_rank_ref xs i, xs ! i)"
  by (simp add: dstate_def)

lemma dense_step_at:
  assumes "wf lb" "i < length (ranking lb)"
  shows "dense_step i (Score (heap lb ! (ranking lb ! i))) (dstate (scores lb) i)
           = dstate (scores lb) (i + 1)"
proof -
  have "Score (heap lb ! (ranking lb ! i)) = scores lb ! i"
    using assms(2) by (simp add: scores_nth entries_nth)
  then show ?thesis
    unfolding dstate_Suc
    using dense_step_dstate[OF wf_scores_sorted[OF assms(1)], of i] assms(2) by simp
qed

lemma fst_dstate_Suc: "fst (dstate xs (i + 1)) = dense_rank_ref xs i"
  by (simp add: dstate_def)

lemma GetDenseTopN_loop_eq:
  "wf lb \<Longrightarrow> st = dstate (scores lb) i \<Longrightarrow>
   GetDenseTopN_loop lb n i st res =
     res @ map (denseInfo lb) [i ..< min (nat n) (length (ranking lb))]"
proof (induction lb n i st res rule: GetDenseTopN_loop.induct)
  case (1 lb n i st res)
  show ?case
  proof (cases "int i < n \<and> i < length (ranking lb)")
    case True
    then have lt: "i < min (nat n) (length (ranking lb))" by linarith
    have i: "i < length (ranking lb)" using True by simp
    define st' where "st' = dense_step i (Score (heap lb ! (ranking lb ! i))) st"
    have st': "st' = dstate (scores lb) (i + 1)"
      unfolding st'_def "1.prems"(2) using "1.prems"(1) i by (rule dense_step_at)
    have info: "rankInfo (heap lb ! (ranking lb ! i)) (fst st') = denseInfo lb i"
      unfolding st' fst_dstate_Suc denseInfo_def using i by (simp add: entries_nth)
    have "GetDenseTopN_loop lb n i st res =
            GetDenseTopN_loop lb n (i + 1) st' (res @ [denseInfo lb i])"
      using True by (subst GetDenseTopN_loop.simps) (simp add: Let_def st'_def[symmetric] info)
    also have "\<dots> = (res @ [denseInfo lb i])
                 @ map (denseInfo lb) [i + 1 ..< min (nat n) (length (ranking lb))]"
      using "1.IH"[OF True refl refl "1.prems"(1)] st' info unfolding st'_def by simp
    also have "\<dots> = res @ map (denseInfo lb) [i ..< min (nat n) (length (ranking lb))]"
      using lt by (simp add: upt_conv_Cons)
    finally show ?thesis .
  next
    case False
    then have "min (nat n) (length (ranking lb)) \<le> i" by auto
    then have "[i ..< min (nat n) (length (ranking lb))] = []" by simp
    moreover have "GetDenseTopN_loop lb n i st res = res"
      using False by (subst GetDenseTopN_loop.simps) auto
    ultimately show ?thesis by simp
  qed
qed

lemma dstate_0: "dstate xs 0 = (1, - 1)"
  by (simp add: dstate_def)

lemma GetDenseTopN_eq:
  assumes "wf lb" "0 \<le> n" "n \<le> maxcap"
  shows "GetDenseTopN maxcap lb n =
           Inr (map (denseInfo lb) [0 ..< min (nat n) (length (ranking lb))])"
  using assms(2,3) GetDenseTopN_loop_eq[OF assms(1) dstate_0[symmetric], of n "[]"]
  by (simp add: GetDenseTopN_def makeslice_panics_def)

lemma denseRanks_loop_eq:
  assumes "wf lb"
  shows "es = drop i (ranking lb) \<Longrightarrow> st = dstate (scores lb) i \<Longrightarrow>
         denseRanks_loop (heap lb) es i st =
           map (dense_rank_ref (scores lb)) [i ..< length (ranking lb)]"
proof (induction es arbitrary: i st)
  case Nil
  then have "length (ranking lb) \<le> i" by simp
  then show ?case by simp
next
  case (Cons e es)
  have i: "i < length (ranking lb)"
  proof (rule ccontr)
    assume "\<not> i < length (ranking lb)"
    then have "drop i (ranking lb) = []" by simp
    with Cons.prems(1) show False by simp
  qed
  have "drop i (ranking lb) = ranking lb ! i # drop (i + 1) (ranking lb)"
    using i by (simp add: Cons_nth_drop_Suc)
  then have e: "e = ranking lb ! i" and es: "es = drop (i + 1) (ranking lb)"
    using Cons.prems(1) by simp_all
  define st' where "st' = dense_step i (Score (heap lb ! e)) st"
  have st': "st' = dstate (scores lb) (i + 1)"
    unfolding st'_def e Cons.prems(2) using assms i by (rule dense_step_at)
  have "denseRanks_loop (heap lb) (e # es) i st =
          fst st' # denseRanks_loop (heap lb) es (i + 1) st'"
    by (simp add: Let_def st'_def)
  also have "denseRanks_loop (heap lb) es (i + 1) st' =
          map (dense_rank_ref (scores lb)) [i + 1 ..< length (ranking lb)]"
    using es st' by (rule Cons.IH)
  also have "fst st' = dense_rank_ref (scores lb) i" unfolding st' by (rule fst_dstate_Suc)
  finally show ?case using i by (simp add: upt_conv_Cons)
qed

lemma denseRanks_eq:
  assumes "wf lb"
  shows "denseRanks_loop (heap lb) (ranking lb) 0 (1, - 1) =
           map (dense_rank_ref (scores lb)) [0 ..< length (ranking lb)]"
  using denseRanks_loop_eq[OF assms, of "ranking lb" 0 "(1, - 1)"] by (simp add: dstate_0)

lemma playerDenseRank_loop_nth:
  "distinct xs \<Longrightarrow> k < length xs \<Longrightarrow> playerDenseRank_loop dr xs i (xs ! k) = dr ! (i + k)"
proof (induction xs arbitrary: i k)
  case Nil
  then show ?case by simp
next
  case (Cons x xs)
  show ?case
  proof (cases k)
    case 0
    then show ?thesis by simp
  next
    case (Suc k')
    then have k': "k' < length xs" using Cons.prems by simp
    then have "xs ! k' \<in> set xs" by simp
    then have ne: "x \<noteq> xs ! k'" using Cons.prems(1) by auto
    have "playerDenseRank_loop dr xs (i + 1) (xs ! k') = dr ! (i + 1 + k')"
      using Cons.IH[OF _ k'] Cons.prems(1) by simp
    then show ?thesis using Suc ne by simp
  qed
qed

lemma denseRange_loop_eq:
  "rs = map (dense_rank_ref (scores lb)) [i ..< length (ranking lb)] \<Longrightarrow>
   denseRange_loop lb rs i d rng =
     map (denseInfo lb)
       (filter (\<lambda>j. sub64 d rng \<le> dense_rank_ref (scores lb) j
                    \<and> dense_rank_ref (scores lb) j \<le> add64 d rng)
               [i ..< length (ranking lb)])"
proof (induction rs arbitrary: i)
  case Nil
  then have e: "[i ..< length (ranking lb)] = []" by simp
  show ?case unfolding e by simp
next
  case (Cons r rs)
  have i: "i < length (ranking lb)"
  proof (rule ccontr)
    assume "\<not> i < length (ranking lb)"
    then have "[i ..< length (ranking lb)] = []" by simp
    with Cons.prems show False by simp
  qed
  then have u: "[i ..< length (ranking lb)] = i # [i + 1 ..< length (ranking lb)]"
    by (simp add: upt_conv_Cons)
  have r: "r = dense_rank_ref (scores lb) i"
    and rs: "rs = map (dense_rank_ref (scores lb)) [i + 1 ..< length (ranking lb)]"
    using Cons.prems unfolding u by simp_all
  have info: "rankInfo (heap lb ! (ranking lb ! i)) (dense_rank_ref (scores lb) i)
                = denseInfo lb i"
    unfolding denseInfo_def using i by (simp add: entries_nth)
  show ?case
    unfolding u using Cons.IH[OF rs] by (simp add: info r)
qed

lemma dense_rank_ref_ge1: "1 \<le> dense_rank_ref xs i"
  by (simp add: dense_rank_ref_def)

lemma dense_rank_ref_le: "dense_rank_ref xs i \<le> int i + 2"
proof -
  have "card (set (filter (\<lambda>s. s > xs ! i) (take (i + 1) xs)))
          \<le> length (filter (\<lambda>s. s > xs ! i) (take (i + 1) xs))"
    by (rule card_length)
  also have "\<dots> \<le> length (take (i + 1) xs)" by (rule length_filter_le)
  also have "\<dots> \<le> i + 1" by simp
  finally show ?thesis unfolding dense_rank_ref_def by simp
qed

lemma GetPlayerDenseRankRange_eq:
  assumes "wf lb" "k < length (ranking lb)" "PlayerID (entries lb ! k) = pid"
    and "0 \<le> rng" "rng < 2 ^ 62" "dense_rank_ref (scores lb) k + rng < 2 ^ 63"
    and "2 * rng + 1 \<le> maxcap"
  shows "GetPlayerDenseRankRange maxcap lb pid rng =
           Inr (Some (map (denseInfo lb)
             (filter (\<lambda>j. dense_rank_ref (scores lb) k - rng \<le> dense_rank_ref (scores lb) j
                          \<and> dense_rank_ref (scores lb) j \<le> dense_rank_ref (scores lb) k + rng)
                     [0 ..< length (ranking lb)])))"
proof -
  define d where "d = dense_rank_ref (scores lb) k"
  define dr where "dr = map (dense_rank_ref (scores lb)) [0 ..< length (ranking lb)]"
  have pl: "players lb pid = Some (ranking lb ! k)" using assms(1-3) by (rule wf_position)
  have dr: "denseRanks_loop (heap lb) (ranking lb) 0 (1, - 1) = dr"
    unfolding dr_def using assms(1) by (rule denseRanks_eq)
  have "playerDenseRank_loop dr (ranking lb) 0 (ranking lb ! k) = dr ! (0 + k)"
    using wf_distinct[OF assms(1)] assms(2) by (rule playerDenseRank_loop_nth)
  also have "\<dots> = d" unfolding dr_def d_def using assms(2) by simp
  finally have pd: "playerDenseRank_loop dr (ranking lb) 0 (ranking lb ! k) = d" .
  have d1: "1 \<le> d" unfolding d_def by (rule dense_rank_ref_ge1)
  have dr2: "d + rng < 2 ^ 63" using assms(6) unfolding d_def .
  have "mul64 2 rng = 2 * rng"
    unfolding mul64_def using assms(4,5) by (intro wrap64_id) simp_all
  moreover have "add64 (2 * rng) 1 = 2 * rng + 1"
    unfolding add64_def using assms(4,5) by (intro wrap64_id) simp_all
  ultimately have v: "add64 (mul64 2 rng) 1 = 2 * rng + 1" by simp
  have "0 \<le> 2 * rng + 1" using assms(4) by linarith
  then have cap: "\<not> makeslice_panics maxcap (add64 (mul64 2 rng) 1)"
    unfolding makeslice_panics_def v using assms(7) by simp
  have lo: "sub64 d rng = d - rng"
    unfolding sub64_def using assms(4,5) d1 dr2 by (intro wrap64_id) linarith+
  have hi: "add64 d rng = d + rng"
    unfolding add64_def using assms(4) d1 dr2 by (intro wrap64_id) linarith+
  have loop: "denseRange_loop lb dr 0 d rng =
     map (denseInfo lb)
       (filter (\<lambda>j. d - rng \<le> dense_rank_ref (scores lb) j
                    \<and> dense_rank_ref (scores lb) j \<le> d + rng)
               [0 ..< length (ranking lb)])"
    using denseRange_loop_eq[OF dr_def, of d rng] unfolding lo hi .
  have "GetPlayerDenseRankRange maxcap lb pid rng =
          (if makeslice_panics maxcap (add64 (mul64 2 rng) 1) then Inl MakeSliceCapOutOfRange
           else Inr (Some (denseRange_loop lb dr 0 d rng)))"
    unfolding GetPlayerDenseRankRange_def pl option.case dr Let_def pd ..
  then show ?thesis using cap loop unfolding d_def by simp
qed

section \<open>Where \<open>UpdateScore\<close> places the entry, and the player in its own window\<close>

lemma nth_insert_at_eq:
  assumes "i \<le> length xs"
  shows "(take i xs @ x # drop i xs) ! i = x"
proof -
  have l: "length (take i xs) = i" using assms by simp
  show ?thesis using nth_append_length[of "take i xs" x "drop i xs"] unfolding l .
qed

lemma nth_insert_at_before:
  assumes "i \<le> length xs" "j < i"
  shows "(take i xs @ x # drop i xs) ! j = xs ! j"
proof -
  have l: "length (take i xs) = i" using assms(1) by simp
  have "j < length (take i xs)" unfolding l by (rule assms(2))
  then have "(take i xs @ x # drop i xs) ! j = take i xs ! j" by (rule nth_append_left)
  also have "\<dots> = xs ! j" using assms(2) by (rule nth_take)
  finally show ?thesis .
qed

lemma nth_insert_at_after:
  assumes "i \<le> length xs" "i < j" "j \<le> length xs"
  shows "(take i xs @ x # drop i xs) ! j = xs ! (j - 1)"
proof -
  have l: "length (take i xs) = i" using assms(1) by simp
  obtain m where m: "j = Suc (i + m)" using assms(2) less_iff_Suc_add by auto
  have "length (take i xs) \<le> j" unfolding l using assms(2) by simp
  then have "(take i xs @ x # drop i xs) ! j = (x # drop i xs) ! (j - length (take i xs))"
    by (rule nth_append_right)
  also have "j - length (take i xs) = Suc m" unfolding l m by simp
  also have "(x # drop i xs) ! Suc m = drop i xs ! m" by simp
  also have "\<dots> = xs ! (i + m)" using assms(1) by (rule nth_drop)
  also have "i + m = j - 1" unfolding m by simp
  finally show ?thesis .
qed

lemma UpdateScore_position:
  assumes "wf lb"
    and "k < length (entries (UpdateScore lb p s t))"
    and "PlayerID (entries (UpdateScore lb p s t) ! k) = p"
  shows "k = insert_idx (rest_entries lb p) \<lparr>PlayerID = p, Score = s, Timestamp = t\<rparr>"
proof -
  let ?U = "UpdateScore lb p s t"
  let ?e = "\<lparr>PlayerID = p, Score = s, Timestamp = t\<rparr>"
  let ?ks = "rest_entries lb p"
  let ?idx = "insert_idx ?ks ?e"
  have le: "?idx \<le> length ?ks" using rest_entries_sorted[OF assms(1)] by (rule insert_idx_spec(1))
  have E: "entries ?U = take ?idx ?ks @ ?e # drop ?idx ?ks"
    using assms(1) by (rule UpdateScore_entries)
  have lt: "?idx < length (entries ?U)" unfolding E using le by simp
  have "entries ?U ! ?idx = ?e" unfolding E using le by (rule nth_insert_at_eq)
  then have eq: "map PlayerID (entries ?U) ! k = map PlayerID (entries ?U) ! ?idx"
    using lt assms(2,3) by simp
  have d: "distinct (map PlayerID (entries ?U))"
    using wf_UpdateScore[OF assms(1)] by (rule wf_ids_distinct)
  have l1: "k < length (map PlayerID (entries ?U))" using assms(2) by simp
  have l2: "?idx < length (map PlayerID (entries ?U))" using lt by simp
  show ?thesis using nth_eq_iff_index_eq[OF d l1 l2] eq by blast
qed

lemma UpdateScore_placement:
  assumes "wf lb"
    and "k < length (entries (UpdateScore lb p s t))"
    and "PlayerID (entries (UpdateScore lb p s t) ! k) = p"
  shows "entries (UpdateScore lb p s t) ! k = \<lparr>PlayerID = p, Score = s, Timestamp = t\<rparr>"
    and "\<And>j. j < k \<Longrightarrow>
           comparator (entries (UpdateScore lb p s t) ! j) \<lparr>PlayerID = p, Score = s, Timestamp = t\<rparr>"
    and "\<And>j. k < j \<Longrightarrow> j < length (entries (UpdateScore lb p s t)) \<Longrightarrow>
           insertToRanking_pred (entries (UpdateScore lb p s t) ! j)
             \<lparr>PlayerID = p, Score = s, Timestamp = t\<rparr>"
proof -
  let ?U = "UpdateScore lb p s t"
  let ?e = "\<lparr>PlayerID = p, Score = s, Timestamp = t\<rparr>"
  let ?ks = "rest_entries lb p"
  have srt: "sorted_wrt comparator ?ks" using assms(1) by (rule rest_entries_sorted)
  have k: "k = insert_idx ?ks ?e" using assms by (rule UpdateScore_position)
  have le: "k \<le> length ?ks" unfolding k using srt by (rule insert_idx_spec(1))
  have E: "entries ?U = take k ?ks @ ?e # drop k ?ks"
    unfolding k using assms(1) by (rule UpdateScore_entries)
  show "entries ?U ! k = ?e" unfolding E using le by (rule nth_insert_at_eq)
  show "\<And>j. j < k \<Longrightarrow> comparator (entries ?U ! j) ?e"
  proof -
    fix j assume j: "j < k"
    have "entries ?U ! j = ?ks ! j" unfolding E using le j by (rule nth_insert_at_before)
    moreover have "comparator (?ks ! j) ?e"
      using srt j unfolding k by (rule insert_idx_spec(2))
    ultimately show "comparator (entries ?U ! j) ?e" by simp
  qed
  show "\<And>j. k < j \<Longrightarrow> j < length (entries ?U) \<Longrightarrow> insertToRanking_pred (entries ?U ! j) ?e"
  proof -
    fix j assume j: "k < j" "j < length (entries ?U)"
    have jl: "j \<le> length ?ks" using j(2) unfolding E using le by simp
    have "entries ?U ! j = ?ks ! (j - 1)" unfolding E using le j(1) jl by (rule nth_insert_at_after)
    moreover have "insertToRanking_pred (?ks ! (j - 1)) ?e"
    proof (rule insert_idx_spec(3)[OF srt])
      show "insert_idx ?ks ?e \<le> j - 1" using j(1) unfolding k[symmetric] by simp
      show "j - 1 < length ?ks" using j(1) jl by simp
    qed
    ultimately show "insertToRanking_pred (entries ?U ! j) ?e" by simp
  qed
qed

lemma filter_eq_index: "lo \<le> k \<Longrightarrow> k < hi \<Longrightarrow> filter (\<lambda>i. i = k) [lo ..< hi] = [k]"
proof -
  assume a: "lo \<le> k" "k < hi"
  have "[lo ..< hi] = [lo ..< k] @ [k ..< hi]"
    using a by (metis le_Suc_ex less_imp_le_nat upt_add_eq_append)
  also have "[k ..< hi] = k # [Suc k ..< hi]" using a(2) by (rule upt_conv_Cons)
  finally have u: "[lo ..< hi] = [lo ..< k] @ k # [Suc k ..< hi]" .
  have "filter (\<lambda>i. i = k) [lo ..< k] = []" by (simp add: filter_empty_conv)
  moreover have "filter (\<lambda>i. i = k) [Suc k ..< hi] = []" by (simp add: filter_empty_conv)
  ultimately show ?thesis unfolding u by simp
qed

lemma wf_id_at:
  assumes "wf lb" "k < length (ranking lb)" "i < length (ranking lb)"
  shows "PlayerID (entries lb ! i) = PlayerID (entries lb ! k) \<longleftrightarrow> i = k"
proof -
  have d: "distinct (map PlayerID (entries lb))" using assms(1) by (rule wf_ids_distinct)
  have l1: "i < length (map PlayerID (entries lb))" using assms(3) by simp
  have l2: "k < length (map PlayerID (entries lb))" using assms(2) by simp
  have "map PlayerID (entries lb) ! i = PlayerID (entries lb ! i)" using assms(3) by simp
  moreover have "map PlayerID (entries lb) ! k = PlayerID (entries lb ! k)" using assms(2) by simp
  ultimately show ?thesis using nth_eq_iff_index_eq[OF d l1 l2] by simp
qed

lemma self_once_std:
  assumes "wf lb" "k < length (ranking lb)" "lo \<le> k" "k < hi" "hi \<le> length (ranking lb)"
  shows "filter (\<lambda>r. RankInfo.PlayerID r = PlayerID (entries lb ! k)) (map (stdInfo lb) [lo ..< hi])
           = [stdInfo lb k]"
proof -
  have "filter (\<lambda>i. PlayerID (entries lb ! i) = PlayerID (entries lb ! k)) [lo ..< hi]
          = filter (\<lambda>i. i = k) [lo ..< hi]"
  proof (rule filter_cong[OF refl])
    fix i assume "i \<in> set [lo ..< hi]"
    then have "i < length (ranking lb)" using assms(5) by simp
    with assms(1,2) show "(PlayerID (entries lb ! i) = PlayerID (entries lb ! k)) = (i = k)"
      by (rule wf_id_at)
  qed
  also have "\<dots> = [k]" using assms(3,4) by (rule filter_eq_index)
  finally have f: "filter (\<lambda>i. PlayerID (entries lb ! i) = PlayerID (entries lb ! k)) [lo ..< hi] = [k]" .
  have "filter (\<lambda>r. RankInfo.PlayerID r = PlayerID (entries lb ! k)) (map (stdInfo lb) [lo ..< hi])
          = map (stdInfo lb) (filter (\<lambda>i. PlayerID (entries lb ! i) = PlayerID (entries lb ! k)) [lo ..< hi])"
    by (simp add: filter_map comp_def stdInfo_def rankInfo_def)
  then show ?thesis unfolding f by simp
qed

lemma self_inclusion_std:
  assumes "wf lb" "k < length (ranking lb)" "PlayerID (entries lb ! k) = pid"
    and "0 \<le> rng" "int k + rng < 2 ^ 63" "int (length (ranking lb)) < 2 ^ 63"
    and "int (length (ranking lb)) \<le> maxcap"
  shows "\<exists>res. GetPlayerRankRange maxcap lb pid rng = Inr (Some res)
               \<and> length (filter (\<lambda>r. RankInfo.PlayerID r = pid) res) = 1"
proof -
  define lo where "lo = nat (max 0 (int k - rng))"
  define hi where "hi = nat (min (int (length (ranking lb)) - 1) (int k + rng)) + 1"
  have r: "GetPlayerRankRange maxcap lb pid rng = Inr (Some (map (stdInfo lb) [lo ..< hi]))"
    unfolding lo_def hi_def using assms by (rule GetPlayerRankRange_eq)
  have b: "lo \<le> k" "k < hi" "hi \<le> length (ranking lb)"
    unfolding lo_def hi_def using assms(2,4) by linarith+
  have "filter (\<lambda>r. RankInfo.PlayerID r = PlayerID (entries lb ! k)) (map (stdInfo lb) [lo ..< hi])
          = [stdInfo lb k]"
    using assms(1,2) b by (rule self_once_std)
  then have "length (filter (\<lambda>r. RankInfo.PlayerID r = pid) (map (stdInfo lb) [lo ..< hi])) = 1"
    unfolding assms(3) by simp
  with r show ?thesis by blast
qed

lemma self_inclusion_dense:
  assumes "wf lb" "k < length (ranking lb)" "PlayerID (entries lb ! k) = pid"
    and "0 \<le> rng" "rng < 2 ^ 62" "dense_rank_ref (scores lb) k + rng < 2 ^ 63"
    and "2 * rng + 1 \<le> maxcap"
  shows "\<exists>res. GetPlayerDenseRankRange maxcap lb pid rng = Inr (Some res)
               \<and> (\<exists>r \<in> set res. RankInfo.PlayerID r = pid)"
proof -
  define d where "d = dense_rank_ref (scores lb) k"
  define js where "js = filter (\<lambda>j. d - rng \<le> dense_rank_ref (scores lb) j
                          \<and> dense_rank_ref (scores lb) j \<le> d + rng) [0 ..< length (ranking lb)]"
  have r: "GetPlayerDenseRankRange maxcap lb pid rng = Inr (Some (map (denseInfo lb) js))"
    unfolding js_def d_def using assms by (rule GetPlayerDenseRankRange_eq)
  have "k \<in> set js" unfolding js_def using assms(2,4) by (simp add: d_def)
  then have "denseInfo lb k \<in> set (map (denseInfo lb) js)" by simp
  moreover have "RankInfo.PlayerID (denseInfo lb k) = pid"
    using assms(3) by (simp add: denseInfo_def rankInfo_def)
  ultimately show ?thesis using r by blast
qed

section \<open>The claims\<close>

text \<open>
  Claim C1 (sort invariant). After every sequence of \<open>UpdateScore\<close> calls on the empty
  service the ordered sequence is sorted by the comparator: every entry ranks before every
  later one, and at adjacent positions \<open>i\<close>, \<open>i + 1\<close> either the score at \<open>i\<close> is greater, or
  the scores are equal and the timestamp at \<open>i\<close> is not later.
\<close>

theorem C1_sort_invariant:
  "sorted_wrt comparator (entries (run calls)) \<and>
   (\<forall>i. i + 1 < length (entries (run calls)) \<longrightarrow>
      Score (entries (run calls) ! i) > Score (entries (run calls) ! (i + 1))
      \<or> (Score (entries (run calls) ! i) = Score (entries (run calls) ! (i + 1))
          \<and> Timestamp (entries (run calls) ! i) \<le> Timestamp (entries (run calls) ! (i + 1))))"
proof -
  have s: "sorted_wrt comparator (entries (run calls))"
    using wf_run by (rule wf_sorted)
  have "\<And>i. i + 1 < length (entries (run calls)) \<Longrightarrow>
          comparator (entries (run calls) ! i) (entries (run calls) ! (i + 1))"
    using s by (simp add: sorted_wrt_iff_nth_less)
  then show ?thesis using s unfolding comparator_def by blast
qed

text \<open>The invariant at position 1 after three calls that arrive out of rank order.\<close>

theorem C1_sort_invariant_witness:
  "(1::nat) + 1 < length (entries (run [(''a'', 90, 1), (''b'', 100, 5), (''c'', 100, 2)])) \<and>
   entries (run [(''a'', 90, 1), (''b'', 100, 5), (''c'', 100, 2)]) =
     [\<lparr>PlayerID = ''c'', Score = 100, Timestamp = 2\<rparr>,
      \<lparr>PlayerID = ''b'', Score = 100, Timestamp = 5\<rparr>,
      \<lparr>PlayerID = ''a'', Score = 90, Timestamp = 1\<rparr>] \<and>
   (Score (entries (run [(''a'', 90, 1), (''b'', 100, 5), (''c'', 100, 2)]) ! 1)
      > Score (entries (run [(''a'', 90, 1), (''b'', 100, 5), (''c'', 100, 2)]) ! (1 + 1))
    \<or> (Score (entries (run [(''a'', 90, 1), (''b'', 100, 5), (''c'', 100, 2)]) ! 1)
          = Score (entries (run [(''a'', 90, 1), (''b'', 100, 5), (''c'', 100, 2)]) ! (1 + 1))
        \<and> Timestamp (entries (run [(''a'', 90, 1), (''b'', 100, 5), (''c'', 100, 2)]) ! 1)
          \<le> Timestamp (entries (run [(''a'', 90, 1), (''b'', 100, 5), (''c'', 100, 2)]) ! (1 + 1))))"
proof -
  have e: "entries (run [(''a'', 90, 1), (''b'', 100, 5), (''c'', 100, 2)]) =
     [\<lparr>PlayerID = ''c'', Score = 100, Timestamp = 2\<rparr>,
      \<lparr>PlayerID = ''b'', Score = 100, Timestamp = 5\<rparr>,
      \<lparr>PlayerID = ''a'', Score = 90, Timestamp = 1\<rparr>]"
    by code_simp
  have l: "(1::nat) + 1 < length (entries (run [(''a'', 90, 1), (''b'', 100, 5), (''c'', 100, 2)]))"
    unfolding e by simp
  from C1_sort_invariant[of "[(''a'', 90, 1), (''b'', 100, 5), (''c'', 100, 2)]"] l e
  show ?thesis by blast
qed

text \<open>
  Claim C8 (population consistency). After every sequence of \<open>UpdateScore\<close> calls the
  length of the ordered sequence is the number of keys of the lookup map, which is the
  number of distinct player identities passed to \<open>UpdateScore\<close>; no pointer occurs twice in
  the ordered sequence, and no player identity either.
\<close>

theorem C8_population_consistency:
  "length (ranking (run calls)) = card (dom (players (run calls)))
   \<and> card (dom (players (run calls))) = card (fst ` set calls)
   \<and> distinct (ranking (run calls))
   \<and> distinct (map PlayerID (entries (run calls)))"
  using wf_population[OF wf_run, of calls] wf_distinct[OF wf_run, of calls]
    wf_ids_distinct[OF wf_run, of calls]
  by (simp add: dom_run)

text \<open>
  Claim C3 (idempotent re-update). In every reachable state a second call of
  \<open>UpdateScore\<close> with the arguments of the first leaves the whole state as it is after the
  first call: every player's answer from \<open>GetPlayerRank\<close> (rank, score, timestamp) is the
  same, the player's score is the one passed, and the population size is unchanged.
\<close>

theorem C3_idempotent_reupdate:
  "UpdateScore (UpdateScore (run calls) p s t) p s t = UpdateScore (run calls) p s t
   \<and> (\<forall>q. GetPlayerRank (UpdateScore (UpdateScore (run calls) p s t) p s t) q
            = GetPlayerRank (UpdateScore (run calls) p s t) q)
   \<and> (\<exists>r. GetPlayerRank (UpdateScore (run calls) p s t) p = Some r \<and> RankInfo.Score r = s)
   \<and> length (ranking (UpdateScore (UpdateScore (run calls) p s t) p s t))
       = length (ranking (UpdateScore (run calls) p s t))"
proof -
  let ?U = "UpdateScore (run calls) p s t"
  have eq: "UpdateScore ?U p s t = ?U" using wf_run by (rule UpdateScore_twice)
  have wfU: "wf ?U" using wf_run by (rule wf_UpdateScore)
  have "players ?U p = Some (target (run calls) p)" by (simp add: UpdateScore_players)
  then obtain k where k: "k < length (ranking ?U)" "ranking ?U ! k = target (run calls) p"
      "PlayerID (entries ?U ! k) = p"
    using wf_known_position[OF wfU] by blast
  have "entries ?U ! k = \<lparr>PlayerID = p, Score = s, Timestamp = t\<rparr>"
    using k(1,2) UpdateScore_heap_target[OF wf_run, of calls p s t] by (simp add: entries_nth)
  then have "RankInfo.Score (stdInfo ?U k) = s" by (simp add: stdInfo_def rankInfo_def)
  then have "\<exists>r. GetPlayerRank ?U p = Some r \<and> RankInfo.Score r = s"
    using GetPlayerRank_known[OF wfU k(1,3)] by simp
  then show ?thesis unfolding eq by simp
qed

text \<open>
  Claim C4, amended. In every reachable state and for every \<open>n \<ge> 0\<close> that is a capacity the
  runtime allocates, \<open>GetTopN n\<close> returns without a panic the entries at the first
  \<open>min n size\<close> positions of the ordered sequence, each with its fields and the standard
  rank \<open>position + 1\<close>; for \<open>n = 0\<close> the result is empty.
\<close>

theorem C4_GetTopN:
  "0 \<le> n \<Longrightarrow> n \<le> maxcap \<Longrightarrow>
   GetTopN maxcap (run calls) n =
     Inr (map (stdInfo (run calls)) [0 ..< min (nat n) (length (ranking (run calls)))])
   \<and> length (map (stdInfo (run calls)) [0 ..< min (nat n) (length (ranking (run calls)))])
       = min (nat n) (length (ranking (run calls)))
   \<and> (\<forall>i < min (nat n) (length (ranking (run calls))).
         Rank (stdInfo (run calls) i) = int i + 1
         \<and> RankInfo.PlayerID (stdInfo (run calls) i) = PlayerID (entries (run calls) ! i)
         \<and> RankInfo.Score (stdInfo (run calls) i) = Score (entries (run calls) ! i)
         \<and> RankInfo.Timestamp (stdInfo (run calls) i) = Timestamp (entries (run calls) ! i))
   \<and> (n = 0 \<longrightarrow> GetTopN maxcap (run calls) n = Inr [])"
  by (simp add: GetTopN_eq stdInfo_def rankInfo_def)

text \<open>The two best of three players.\<close>

theorem C4_GetTopN_witness:
  "(0::int) \<le> 2 \<and> 2 \<le> maxcap_amd64 \<and>
   GetTopN maxcap_amd64 (run [(''a'', 100, 1), (''b'', 100, 2), (''c'', 90, 3)]) 2 =
     Inr [\<lparr>RankInfo.PlayerID = ''a'', RankInfo.Score = 100, Rank = 1, RankInfo.Timestamp = 1\<rparr>,
          \<lparr>RankInfo.PlayerID = ''b'', RankInfo.Score = 100, Rank = 2, RankInfo.Timestamp = 2\<rparr>]"
proof -
  have h: "(0::int) \<le> 2" by simp
  have m: "map (stdInfo (run [(''a'', 100, 1), (''b'', 100, 2), (''c'', 90, 3)]))
             [0 ..< min (nat 2) (length (ranking (run [(''a'', 100, 1), (''b'', 100, 2), (''c'', 90, 3)])))]
           = [\<lparr>RankInfo.PlayerID = ''a'', RankInfo.Score = 100, Rank = 1, RankInfo.Timestamp = 1\<rparr>,
              \<lparr>RankInfo.PlayerID = ''b'', RankInfo.Score = 100, Rank = 2, RankInfo.Timestamp = 2\<rparr>]"
    by code_simp
  have c: "2 \<le> maxcap_amd64" by (simp add: maxcap_amd64_def)
  from C4_GetTopN[OF h c, of "[(''a'', 100, 1), (''b'', 100, 2), (''c'', 90, 3)]"] m h c
  show ?thesis by simp
qed

text \<open>
  Claim C4 as stated fails for negative \<open>n\<close>: \<open>make([]model.RankInfo, 0, n)\<close> panics before
  the loop is reached, so no empty result is returned. It also fails for an \<open>n\<close> far above
  the population, which is not truncated but refused by the allocator.
\<close>

theorem C4_GetTopN_counterexample:
  "GetTopN maxcap_amd64 (run [(''a'', 100, 1)]) (- 1) = Inl MakeSliceCapOutOfRange
   \<and> GetTopN maxcap_amd64 (run [(''a'', 100, 1)]) 9223372036854775807
       = Inl MakeSliceCapOutOfRange"
  by (simp add: GetTopN_def makeslice_panics_def maxcap_amd64_def)

text \<open>
  Claim C5, amended. In every reachable state, for a known player at position \<open>k\<close>
  (0-based) of the ordered sequence and every \<open>rng \<ge> 0\<close> for which \<open>k + rng\<close> does not
  overflow the 64-bit \<open>int\<close>, \<open>GetPlayerRankRange\<close> returns without a panic exactly the
  entries at the positions \<open>max 0 (k - rng)\<close> to \<open>min (size - 1) (k + rng)\<close> inclusive, each
  with standard rank \<open>position + 1\<close>. The last two hypotheses say that the runtime can
  allocate a result as long as the population, and that its limit is an \<open>int\<close>.
\<close>

theorem C5_GetPlayerRankRange:
  assumes "k < length (ranking (run calls))"
    and "PlayerID (entries (run calls) ! k) = pid"
    and "0 \<le> rng" and "int k + rng < 2 ^ 63"
    and "int (length (ranking (run calls))) \<le> maxcap" and "maxcap < 2 ^ 63"
  shows "GetPlayerRankRange maxcap (run calls) pid rng =
           Inr (Some (map (stdInfo (run calls))
             [nat (max 0 (int k - rng)) ..<
              nat (min (int (length (ranking (run calls))) - 1) (int k + rng)) + 1]))"
proof -
  have "int (length (ranking (run calls))) < 2 ^ 63" using assms(5,6) by linarith
  with wf_run assms(1-4) show ?thesis using assms(5) by (rule GetPlayerRankRange_eq)
qed

text \<open>
  Five players ranked 1 to 5; the window of radius 10 around the third is clipped to the
  whole population.
\<close>

theorem C5_GetPlayerRankRange_witness:
  "(2::nat) < length (ranking (run [(''p1'', 50, 1), (''p2'', 40, 2), (''p3'', 30, 3),
                                     (''p4'', 20, 4), (''p5'', 10, 5)]))
   \<and> PlayerID (entries (run [(''p1'', 50, 1), (''p2'', 40, 2), (''p3'', 30, 3),
                             (''p4'', 20, 4), (''p5'', 10, 5)]) ! 2) = ''p3''
   \<and> (0::int) \<le> 10 \<and> int 2 + 10 < 2 ^ 63
   \<and> int (length (ranking (run [(''p1'', 50, 1), (''p2'', 40, 2), (''p3'', 30, 3),
                                 (''p4'', 20, 4), (''p5'', 10, 5)]))) \<le> maxcap_amd64
   \<and> maxcap_amd64 < 2 ^ 63
   \<and> GetPlayerRankRange maxcap_amd64 (run [(''p1'', 50, 1), (''p2'', 40, 2), (''p3'', 30, 3),
                               (''p4'', 20, 4), (''p5'', 10, 5)]) ''p3'' 10 =
       Inr (Some
         [\<lparr>RankInfo.PlayerID = ''p1'', RankInfo.Score = 50, Rank = 1, RankInfo.Timestamp = 1\<rparr>,
          \<lparr>RankInfo.PlayerID = ''p2'', RankInfo.Score = 40, Rank = 2, RankInfo.Timestamp = 2\<rparr>,
          \<lparr>RankInfo.PlayerID = ''p3'', RankInfo.Score = 30, Rank = 3, RankInfo.Timestamp = 3\<rparr>,
          \<lparr>RankInfo.PlayerID = ''p4'', RankInfo.Score = 20, Rank = 4, RankInfo.Timestamp = 4\<rparr>,
          \<lparr>RankInfo.PlayerID = ''p5'', RankInfo.Score = 10, Rank = 5, RankInfo.Timestamp = 5\<rparr>])"
proof -
  let ?cs = "[(''p1'', 50, 1), (''p2'', 40, 2), (''p3'', 30, 3), (''p4'', 20, 4), (''p5'', 10, 5)]
               :: call list"
  have r: "ranking (run ?cs) = [0, 1, 2, 3, 4]" by code_simp
  have h1: "(2::nat) < length (ranking (run ?cs))" unfolding r by simp
  have h2: "PlayerID (entries (run ?cs) ! 2) = ''p3''" by code_simp
  have h3: "(0::int) \<le> 10" by simp
  have h4: "int 2 + 10 < 2 ^ 63" by simp
  have h5: "int (length (ranking (run ?cs))) \<le> maxcap_amd64"
    unfolding r by (simp add: maxcap_amd64_def)
  have h6: "maxcap_amd64 < 2 ^ 63" by (simp add: maxcap_amd64_def)
  have m: "map (stdInfo (run ?cs))
             [nat (max 0 (int 2 - 10)) ..< nat (min (int (length (ranking (run ?cs))) - 1) (int 2 + 10)) + 1]
           = [\<lparr>RankInfo.PlayerID = ''p1'', RankInfo.Score = 50, Rank = 1, RankInfo.Timestamp = 1\<rparr>,
          \<lparr>RankInfo.PlayerID = ''p2'', RankInfo.Score = 40, Rank = 2, RankInfo.Timestamp = 2\<rparr>,
          \<lparr>RankInfo.PlayerID = ''p3'', RankInfo.Score = 30, Rank = 3, RankInfo.Timestamp = 3\<rparr>,
          \<lparr>RankInfo.PlayerID = ''p4'', RankInfo.Score = 20, Rank = 4, RankInfo.Timestamp = 4\<rparr>,
          \<lparr>RankInfo.PlayerID = ''p5'', RankInfo.Score = 10, Rank = 5, RankInfo.Timestamp = 5\<rparr>]"
    by code_simp
  from C5_GetPlayerRankRange[OF h1 h2 h3 h4 h5 h6] m h1 h2 h3 h4 h5 h6
  show ?thesis by simp
qed

text \<open>
  Claim C5 as stated fails for a negative \<open>rng\<close> and for an \<open>rng\<close> that makes \<open>rank + rng\<close>
  wrap around: the capacity \<open>end - start + 1\<close> passed to \<open>make\<close> is negative and the call
  panics.
\<close>

theorem C5_GetPlayerRankRange_counterexample:
  "GetPlayerRankRange maxcap_amd64 (run [(''a'', 100, 1), (''b'', 90, 2)]) ''b'' (- 1)
     = Inl MakeSliceCapOutOfRange
   \<and> GetPlayerRankRange maxcap_amd64 (run [(''a'', 100, 1), (''b'', 90, 2)]) ''b'' 9223372036854775807
     = Inl MakeSliceCapOutOfRange"
  by code_simp

text \<open>
  Claim C7 (unknown player). For an identity \<open>p\<close> never passed to \<open>UpdateScore\<close> the three
  queries give their not-found result (\<open>nil\<close>: \<open>None\<close> for the pointer, \<open>Inr None\<close> for the
  slice); for an identity \<open>q\<close> that was passed at least once none of them does.
\<close>

theorem C7_unknown_player:
  "(p \<notin> fst ` set calls \<longrightarrow>
      GetPlayerRank (run calls) p = None
      \<and> GetPlayerRankRange maxcap (run calls) p rng = Inr None
      \<and> GetPlayerDenseRankRange maxcap (run calls) p rng = Inr None)
   \<and> (q \<in> fst ` set calls \<longrightarrow>
      GetPlayerRank (run calls) q \<noteq> None
      \<and> GetPlayerRankRange maxcap (run calls) q rng \<noteq> Inr None
      \<and> GetPlayerDenseRankRange maxcap (run calls) q rng \<noteq> Inr None)"
proof (intro conjI impI)
  assume "p \<notin> fst ` set calls"
  then have n: "players (run calls) p = None" using dom_run[of calls] by blast
  show "GetPlayerRank (run calls) p = None" by (simp add: GetPlayerRank_def n)
  show "GetPlayerRankRange maxcap (run calls) p rng = Inr None" by (simp add: GetPlayerRankRange_def n)
  show "GetPlayerDenseRankRange maxcap (run calls) p rng = Inr None"
    by (simp add: GetPlayerDenseRankRange_def n)
next
  assume "q \<in> fst ` set calls"
  then obtain a where s: "players (run calls) q = Some a" using dom_run[of calls] by blast
  show "GetPlayerRank (run calls) q \<noteq> None" by (simp add: GetPlayerRank_def s Let_def)
  show "GetPlayerRankRange maxcap (run calls) q rng \<noteq> Inr None"
    by (simp add: GetPlayerRankRange_def s Let_def split: sum.split)
  show "GetPlayerDenseRankRange maxcap (run calls) q rng \<noteq> Inr None"
    by (simp add: GetPlayerDenseRankRange_def s Let_def)
qed

text \<open>
  An unknown and a known identity after two calls.
\<close>

theorem C7_unknown_player_witness:
  "''z'' \<notin> fst ` set ([(''a'', 100, 1), (''b'', 90, 2)] :: call list)
   \<and> ''a'' \<in> fst ` set ([(''a'', 100, 1), (''b'', 90, 2)] :: call list)
   \<and> GetPlayerRank (run [(''a'', 100, 1), (''b'', 90, 2)]) ''z'' = None
   \<and> GetPlayerRankRange maxcap_amd64 (run [(''a'', 100, 1), (''b'', 90, 2)]) ''z'' 1 = Inr None
   \<and> GetPlayerDenseRankRange maxcap_amd64 (run [(''a'', 100, 1), (''b'', 90, 2)]) ''z'' 1 = Inr None
   \<and> GetPlayerRank (run [(''a'', 100, 1), (''b'', 90, 2)]) ''a'' \<noteq> None
   \<and> GetPlayerRankRange maxcap_amd64 (run [(''a'', 100, 1), (''b'', 90, 2)]) ''a'' 1 \<noteq> Inr None
   \<and> GetPlayerDenseRankRange maxcap_amd64 (run [(''a'', 100, 1), (''b'', 90, 2)]) ''a'' 1 \<noteq> Inr None"
proof -
  have h1: "''z'' \<notin> fst ` set ([(''a'', 100, 1), (''b'', 90, 2)] :: call list)" by simp
  have h2: "''a'' \<in> fst ` set ([(''a'', 100, 1), (''b'', 90, 2)] :: call list)" by simp
  from C7_unknown_player[of "''z''" "[(''a'', 100, 1), (''b'', 90, 2)]" maxcap_amd64 1 "''a''"] h1 h2
  show ?thesis by blast
qed

text \<open>
  Claim C2 (dense rank, refinement). In every reachable state and for every \<open>n\<close>, each
  entry that \<open>GetDenseTopN n\<close> returns carries in \<open>Rank\<close> the reference dense rank of its
  position: one more than the number of distinct scores strictly greater than its own among
  the entries enumerated so far. The ranks also follow the rule of the loop: the first is 1,
  and each later one repeats its predecessor's when the scores are equal and is one more
  otherwise. For an \<open>n \<ge> 0\<close> that is a capacity the runtime allocates the call does
  return, with the first \<open>min n size\<close> entries.
\<close>

theorem C2_dense_rank_refines_reference:
  "(0 \<le> n \<and> n \<le> maxcap \<longrightarrow>
      GetDenseTopN maxcap (run calls) n =
        Inr (map (denseInfo (run calls)) [0 ..< min (nat n) (length (ranking (run calls)))]))
   \<and> (\<forall>res. GetDenseTopN maxcap (run calls) n = Inr res \<longrightarrow>
         length res = min (nat n) (length (ranking (run calls)))
         \<and> (\<forall>i < length res.
               Rank (res ! i) = dense_rank_ref (scores (run calls)) i
               \<and> RankInfo.PlayerID (res ! i) = PlayerID (entries (run calls) ! i)
               \<and> RankInfo.Score (res ! i) = scores (run calls) ! i)
         \<and> (res \<noteq> [] \<longrightarrow> Rank (res ! 0) = 1)
         \<and> (\<forall>i. i + 1 < length res \<longrightarrow>
               Rank (res ! (i + 1)) =
                 (if RankInfo.Score (res ! (i + 1)) = RankInfo.Score (res ! i)
                  then Rank (res ! i) else Rank (res ! i) + 1)))"
proof (intro conjI allI impI)
  assume "0 \<le> n \<and> n \<le> maxcap"
  then have "0 \<le> n" "n \<le> maxcap" by simp_all
  with wf_run show "GetDenseTopN maxcap (run calls) n =
        Inr (map (denseInfo (run calls)) [0 ..< min (nat n) (length (ranking (run calls)))])"
    by (rule GetDenseTopN_eq)
next
  fix res assume r: "GetDenseTopN maxcap (run calls) n = Inr res"
  let ?lb = "run calls"
  let ?m = "min (nat n) (length (ranking ?lb))"
  have "\<not> makeslice_panics maxcap n"
    using r by (cases "makeslice_panics maxcap n") (simp_all add: GetDenseTopN_def)
  then have n: "0 \<le> n" "n \<le> maxcap" by (simp_all add: makeslice_panics_def)
  have res: "res = map (denseInfo ?lb) [0 ..< ?m]"
    using r GetDenseTopN_eq[OF wf_run n, of calls] by simp
  show len: "length res = ?m" unfolding res by simp
  have at: "\<And>i. i < length res \<Longrightarrow> res ! i = denseInfo ?lb i"
    unfolding res by simp
  have sc: "\<And>i. i < length res \<Longrightarrow> RankInfo.Score (res ! i) = scores ?lb ! i"
    using at len by (simp add: denseInfo_def rankInfo_def scores_nth)
  have rk: "\<And>i. i < length res \<Longrightarrow> Rank (res ! i) = dense_rank_ref (scores ?lb) i"
    using at by (simp add: denseInfo_def rankInfo_def)
  {
    fix i assume i: "i < length res"
    show "Rank (res ! i) = dense_rank_ref (scores ?lb) i" using i by (rule rk)
    show "RankInfo.PlayerID (res ! i) = PlayerID (entries ?lb ! i)"
      using at[OF i] by (simp add: denseInfo_def rankInfo_def)
    show "RankInfo.Score (res ! i) = scores ?lb ! i" using i by (rule sc)
  }
  {
    assume "res \<noteq> []"
    then have 0: "0 < length res" by simp
    then have "0 < length (scores ?lb)" using len by simp
    then show "Rank (res ! 0) = 1" using rk[OF 0] by (simp add: dense_rank_ref_0)
  }
  {
    fix i assume i: "i + 1 < length res"
    then have i': "i < length res" by simp
    have "i + 1 < length (scores ?lb)" using i len by simp
    from dense_rank_ref_Suc[OF wf_scores_sorted[OF wf_run] this]
    show "Rank (res ! (i + 1)) =
            (if RankInfo.Score (res ! (i + 1)) = RankInfo.Score (res ! i)
             then Rank (res ! i) else Rank (res ! i) + 1)"
      unfolding rk[OF i] rk[OF i'] sc[OF i] sc[OF i'] .
  }
qed

text \<open>
  Players A = 100, B = 100, C = 90 (A updated before B, C first): dense ranks 1, 1, 2.
\<close>

theorem C2_dense_rank_refines_reference_witness:
  "(0::int) \<le> 3 \<and> 3 \<le> maxcap_amd64
   \<and> GetDenseTopN maxcap_amd64 (run [(''c'', 90, 3), (''a'', 100, 1), (''b'', 100, 2)]) 3 =
       Inr [\<lparr>RankInfo.PlayerID = ''a'', RankInfo.Score = 100, Rank = 1, RankInfo.Timestamp = 1\<rparr>,
            \<lparr>RankInfo.PlayerID = ''b'', RankInfo.Score = 100, Rank = 1, RankInfo.Timestamp = 2\<rparr>,
            \<lparr>RankInfo.PlayerID = ''c'', RankInfo.Score = 90, Rank = 2, RankInfo.Timestamp = 3\<rparr>]
   \<and> dense_rank_ref (scores (run [(''c'', 90, 3), (''a'', 100, 1), (''b'', 100, 2)])) 2 = 2"
proof -
  let ?cs = "[(''c'', 90, 3), (''a'', 100, 1), (''b'', 100, 2)] :: call list"
  have h: "(0::int) \<le> 3" by simp
  have h': "3 \<le> maxcap_amd64" by (simp add: maxcap_amd64_def)
  have m: "map (denseInfo (run ?cs)) [0 ..< min (nat 3) (length (ranking (run ?cs)))] =
       [\<lparr>RankInfo.PlayerID = ''a'', RankInfo.Score = 100, Rank = 1, RankInfo.Timestamp = 1\<rparr>,
        \<lparr>RankInfo.PlayerID = ''b'', RankInfo.Score = 100, Rank = 1, RankInfo.Timestamp = 2\<rparr>,
        \<lparr>RankInfo.PlayerID = ''c'', RankInfo.Score = 90, Rank = 2, RankInfo.Timestamp = 3\<rparr>]"
    by code_simp
  have g: "GetDenseTopN maxcap_amd64 (run ?cs) 3 =
       Inr [\<lparr>RankInfo.PlayerID = ''a'', RankInfo.Score = 100, Rank = 1, RankInfo.Timestamp = 1\<rparr>,
            \<lparr>RankInfo.PlayerID = ''b'', RankInfo.Score = 100, Rank = 1, RankInfo.Timestamp = 2\<rparr>,
            \<lparr>RankInfo.PlayerID = ''c'', RankInfo.Score = 90, Rank = 2, RankInfo.Timestamp = 3\<rparr>]"
    using C2_dense_rank_refines_reference[of 3 maxcap_amd64 ?cs] h h' unfolding m by blast
  note c = C2_dense_rank_refines_reference[of 3 maxcap_amd64 ?cs, THEN conjunct2, rule_format, OF g]
  have "Rank ([\<lparr>RankInfo.PlayerID = ''a'', RankInfo.Score = 100, Rank = 1, RankInfo.Timestamp = 1\<rparr>,
            \<lparr>RankInfo.PlayerID = ''b'', RankInfo.Score = 100, Rank = 1, RankInfo.Timestamp = 2\<rparr>,
            \<lparr>RankInfo.PlayerID = ''c'', RankInfo.Score = 90, Rank = 2, RankInfo.Timestamp = 3\<rparr>] ! 2)
          = dense_rank_ref (scores (run ?cs)) 2"
    by (rule c[THEN conjunct2, THEN conjunct1, rule_format, of 2, THEN conjunct1]) simp
  then have r: "dense_rank_ref (scores (run ?cs)) 2 = 2" by simp
  show ?thesis using h h' g r by blast
qed

text \<open>
  Claim C6, amended. In every reachable state, for a known player at position \<open>k\<close> with dense
  rank \<open>d\<close> (the reference dense rank over the whole ordered sequence) and every \<open>rng\<close> with
  \<open>0 \<le> rng\<close> for which \<open>2 * rng + 1\<close> and \<open>d + rng\<close> do not overflow the 64-bit \<open>int\<close> and
  \<open>2 * rng + 1\<close> is a capacity the runtime allocates,
  \<open>GetPlayerDenseRankRange\<close> returns without a panic exactly the entries whose dense rank
  lies in \<open>[d - rng, d + rng]\<close>, in rank order, each with its dense rank in \<open>Rank\<close>. The
  result can have more than \<open>2 * rng + 1\<close> entries: three players tied at one score all come
  back for \<open>rng = 0\<close>.
\<close>

theorem C6_GetPlayerDenseRankRange:
  assumes "k < length (ranking (run calls))"
    and "PlayerID (entries (run calls) ! k) = pid"
    and "0 \<le> rng" and "rng < 2 ^ 62"
    and "dense_rank_ref (scores (run calls)) k + rng < 2 ^ 63"
    and "2 * rng + 1 \<le> maxcap"
  shows "GetPlayerDenseRankRange maxcap (run calls) pid rng =
           Inr (Some (map (denseInfo (run calls))
             (filter (\<lambda>j. dense_rank_ref (scores (run calls)) k - rng
                            \<le> dense_rank_ref (scores (run calls)) j
                          \<and> dense_rank_ref (scores (run calls)) j
                            \<le> dense_rank_ref (scores (run calls)) k + rng)
                     [0 ..< length (ranking (run calls))])))
         \<and> GetPlayerDenseRankRange maxcap_amd64 (run [(''a'', 100, 1), (''b'', 100, 2), (''c'', 100, 3)]) ''a'' 0 =
             Inr (Some
               [\<lparr>RankInfo.PlayerID = ''a'', RankInfo.Score = 100, Rank = 1, RankInfo.Timestamp = 1\<rparr>,
                \<lparr>RankInfo.PlayerID = ''b'', RankInfo.Score = 100, Rank = 1, RankInfo.Timestamp = 2\<rparr>,
                \<lparr>RankInfo.PlayerID = ''c'', RankInfo.Score = 100, Rank = 1, RankInfo.Timestamp = 3\<rparr>])"
proof
  show "GetPlayerDenseRankRange maxcap (run calls) pid rng =
           Inr (Some (map (denseInfo (run calls))
             (filter (\<lambda>j. dense_rank_ref (scores (run calls)) k - rng
                            \<le> dense_rank_ref (scores (run calls)) j
                          \<and> dense_rank_ref (scores (run calls)) j
                            \<le> dense_rank_ref (scores (run calls)) k + rng)
                     [0 ..< length (ranking (run calls))])))"
    using wf_run assms by (rule GetPlayerDenseRankRange_eq)
  show "GetPlayerDenseRankRange maxcap_amd64 (run [(''a'', 100, 1), (''b'', 100, 2), (''c'', 100, 3)]) ''a'' 0 =
             Inr (Some
               [\<lparr>RankInfo.PlayerID = ''a'', RankInfo.Score = 100, Rank = 1, RankInfo.Timestamp = 1\<rparr>,
                \<lparr>RankInfo.PlayerID = ''b'', RankInfo.Score = 100, Rank = 1, RankInfo.Timestamp = 2\<rparr>,
                \<lparr>RankInfo.PlayerID = ''c'', RankInfo.Score = 100, Rank = 1, RankInfo.Timestamp = 3\<rparr>])"
    by code_simp
qed

text \<open>
  Four players with dense ranks 1, 1, 2, 3; the band of radius 1 around the third holds all
  four.
\<close>

theorem C6_GetPlayerDenseRankRange_witness:
  "(2::nat) < length (ranking (run [(''a'', 100, 1), (''b'', 100, 2), (''c'', 90, 3), (''d'', 80, 4)]))
   \<and> PlayerID (entries (run [(''a'', 100, 1), (''b'', 100, 2), (''c'', 90, 3), (''d'', 80, 4)]) ! 2) = ''c''
   \<and> (0::int) \<le> 1 \<and> (1::int) < 2 ^ 62
   \<and> dense_rank_ref (scores (run [(''a'', 100, 1), (''b'', 100, 2), (''c'', 90, 3), (''d'', 80, 4)])) 2 + 1
        < 2 ^ 63
   \<and> 2 * 1 + 1 \<le> maxcap_amd64
   \<and> GetPlayerDenseRankRange maxcap_amd64 (run [(''a'', 100, 1), (''b'', 100, 2), (''c'', 90, 3), (''d'', 80, 4)]) ''c'' 1 =
       Inr (Some
         [\<lparr>RankInfo.PlayerID = ''a'', RankInfo.Score = 100, Rank = 1, RankInfo.Timestamp = 1\<rparr>,
          \<lparr>RankInfo.PlayerID = ''b'', RankInfo.Score = 100, Rank = 1, RankInfo.Timestamp = 2\<rparr>,
          \<lparr>RankInfo.PlayerID = ''c'', RankInfo.Score = 90, Rank = 2, RankInfo.Timestamp = 3\<rparr>,
          \<lparr>RankInfo.PlayerID = ''d'', RankInfo.Score = 80, Rank = 3, RankInfo.Timestamp = 4\<rparr>])"
proof -
  let ?cs = "[(''a'', 100, 1), (''b'', 100, 2), (''c'', 90, 3), (''d'', 80, 4)] :: call list"
  have r: "ranking (run ?cs) = [0, 1, 2, 3]" by code_simp
  have h1: "(2::nat) < length (ranking (run ?cs))" unfolding r by simp
  have h2: "PlayerID (entries (run ?cs) ! 2) = ''c''" by code_simp
  have h3: "(0::int) \<le> 1" by simp
  have h4: "(1::int) < 2 ^ 62" by simp
  have d: "dense_rank_ref (scores (run ?cs)) 2 = 2" by code_simp
  have h5: "dense_rank_ref (scores (run ?cs)) 2 + 1 < 2 ^ 63" unfolding d by simp
  have h6: "2 * 1 + 1 \<le> maxcap_amd64" by (simp add: maxcap_amd64_def)
  have m: "map (denseInfo (run ?cs))
             (filter (\<lambda>j. dense_rank_ref (scores (run ?cs)) 2 - 1 \<le> dense_rank_ref (scores (run ?cs)) j
                          \<and> dense_rank_ref (scores (run ?cs)) j \<le> dense_rank_ref (scores (run ?cs)) 2 + 1)
                     [0 ..< length (ranking (run ?cs))])
         = [\<lparr>RankInfo.PlayerID = ''a'', RankInfo.Score = 100, Rank = 1, RankInfo.Timestamp = 1\<rparr>,
          \<lparr>RankInfo.PlayerID = ''b'', RankInfo.Score = 100, Rank = 1, RankInfo.Timestamp = 2\<rparr>,
          \<lparr>RankInfo.PlayerID = ''c'', RankInfo.Score = 90, Rank = 2, RankInfo.Timestamp = 3\<rparr>,
          \<lparr>RankInfo.PlayerID = ''d'', RankInfo.Score = 80, Rank = 3, RankInfo.Timestamp = 4\<rparr>]"
    by code_simp
  from C6_GetPlayerDenseRankRange[OF h1 h2 h3 h4 h5 h6] m h1 h2 h3 h4 h5 h6
  show ?thesis by simp
qed

text \<open>
  Claim C6 as stated fails for a negative \<open>rng\<close>: the band \<open>[d + 1, d - 1]\<close> is empty, but the
  call does not return the empty result, because \<open>make([]model.RankInfo, 0, 2*rng+1)\<close> panics
  on the negative capacity.
\<close>

theorem C6_GetPlayerDenseRankRange_counterexample:
  "GetPlayerDenseRankRange maxcap_amd64 (run [(''a'', 100, 1), (''b'', 90, 2)]) ''a'' (- 1)
     = Inl MakeSliceCapOutOfRange"
  by code_simp

text \<open>
  Claim C9, amended. In every reachable state, after \<open>UpdateScore p s t\<close> the entry of \<open>p\<close>
  stands at its position \<open>k\<close> with score \<open>s\<close> and timestamp \<open>t\<close>, and every other entry with the
  same score and the same timestamp stands before it. The search has moved past exactly the
  entries before \<open>k\<close>: each has a strictly greater score, or an equal score and a timestamp
  that is smaller or equal; every entry after \<open>k\<close> has a strictly smaller score, or an
  equal score and a strictly greater timestamp.
\<close>

theorem C9_tie_break_placement:
  assumes "k < length (entries (UpdateScore (run calls) p s t))"
    and "PlayerID (entries (UpdateScore (run calls) p s t) ! k) = p"
  shows "entries (UpdateScore (run calls) p s t) ! k = \<lparr>PlayerID = p, Score = s, Timestamp = t\<rparr>
    \<and> (\<forall>j < length (entries (UpdateScore (run calls) p s t)).
          j \<noteq> k \<and> Score (entries (UpdateScore (run calls) p s t) ! j) = s
                \<and> Timestamp (entries (UpdateScore (run calls) p s t) ! j) = t
          \<longrightarrow> j < k)
    \<and> (\<forall>j < k.
          Score (entries (UpdateScore (run calls) p s t) ! j) > s
          \<or> (Score (entries (UpdateScore (run calls) p s t) ! j) = s
              \<and> Timestamp (entries (UpdateScore (run calls) p s t) ! j) \<le> t))
    \<and> (\<forall>j. k < j \<and> j < length (entries (UpdateScore (run calls) p s t)) \<longrightarrow>
          Score (entries (UpdateScore (run calls) p s t) ! j) < s
          \<or> (Score (entries (UpdateScore (run calls) p s t) ! j) = s
              \<and> Timestamp (entries (UpdateScore (run calls) p s t) ! j) > t))"
proof -
  let ?E = "entries (UpdateScore (run calls) p s t)"
  let ?e = "\<lparr>PlayerID = p, Score = s, Timestamp = t\<rparr>"
  have at: "?E ! k = ?e"
    using wf_run assms by (rule UpdateScore_placement(1))
  have before: "\<forall>j < k. Score (?E ! j) > s \<or> (Score (?E ! j) = s \<and> Timestamp (?E ! j) \<le> t)"
  proof (intro allI impI)
    fix j assume "j < k"
    with wf_run assms have "comparator (?E ! j) ?e" by (rule UpdateScore_placement(2))
    then show "Score (?E ! j) > s \<or> (Score (?E ! j) = s \<and> Timestamp (?E ! j) \<le> t)"
      unfolding comparator_def by simp
  qed
  have after: "\<forall>j. k < j \<and> j < length ?E \<longrightarrow>
                 Score (?E ! j) < s \<or> (Score (?E ! j) = s \<and> Timestamp (?E ! j) > t)"
  proof (intro allI impI)
    fix j assume "k < j \<and> j < length ?E"
    then have "k < j" "j < length ?E" by simp_all
    with wf_run assms have "insertToRanking_pred (?E ! j) ?e" by (rule UpdateScore_placement(3))
    then show "Score (?E ! j) < s \<or> (Score (?E ! j) = s \<and> Timestamp (?E ! j) > t)"
      unfolding pred_alt by simp
  qed
  have ties: "\<forall>j < length ?E. j \<noteq> k \<and> Score (?E ! j) = s \<and> Timestamp (?E ! j) = t \<longrightarrow> j < k"
  proof (intro allI impI)
    fix j assume j: "j < length ?E" and h: "j \<noteq> k \<and> Score (?E ! j) = s \<and> Timestamp (?E ! j) = t"
    show "j < k"
    proof (rule ccontr)
      assume "\<not> j < k"
      then have "k < j \<and> j < length ?E" using h j by simp
      then have "Score (?E ! j) < s \<or> (Score (?E ! j) = s \<and> Timestamp (?E ! j) > t)"
        using after by blast
      then show False using h by simp
    qed
  qed
  show ?thesis
    by (intro conjI) (rule at, rule ties, rule before, rule after)
qed

text \<open>
  Two players tied at score 100 and timestamp 1; a third with the same score and timestamp
  is placed after both.
\<close>

theorem C9_tie_break_placement_witness:
  "(2::nat) < length (entries (UpdateScore (run [(''a'', 100, 1), (''c'', 100, 1)]) ''b'' 100 1))
   \<and> PlayerID (entries (UpdateScore (run [(''a'', 100, 1), (''c'', 100, 1)]) ''b'' 100 1) ! 2) = ''b''
   \<and> entries (UpdateScore (run [(''a'', 100, 1), (''c'', 100, 1)]) ''b'' 100 1) =
       [\<lparr>PlayerID = ''a'', Score = 100, Timestamp = 1\<rparr>,
        \<lparr>PlayerID = ''c'', Score = 100, Timestamp = 1\<rparr>,
        \<lparr>PlayerID = ''b'', Score = 100, Timestamp = 1\<rparr>]
   \<and> entries (UpdateScore (run [(''a'', 100, 1), (''c'', 100, 1)]) ''b'' 100 1) ! 2
       = \<lparr>PlayerID = ''b'', Score = 100, Timestamp = 1\<rparr>
   \<and> Score (entries (UpdateScore (run [(''a'', 100, 1), (''c'', 100, 1)]) ''b'' 100 1) ! 1) = 100
   \<and> Timestamp (entries (UpdateScore (run [(''a'', 100, 1), (''c'', 100, 1)]) ''b'' 100 1) ! 1) = 1
   \<and> (1::nat) < 2"
proof -
  let ?U = "UpdateScore (run [(''a'', 100, 1), (''c'', 100, 1)]) ''b'' 100 1"
  have e: "entries ?U =
       [\<lparr>PlayerID = ''a'', Score = 100, Timestamp = 1\<rparr>,
        \<lparr>PlayerID = ''c'', Score = 100, Timestamp = 1\<rparr>,
        \<lparr>PlayerID = ''b'', Score = 100, Timestamp = 1\<rparr>]"
    by code_simp
  have h1: "(2::nat) < length (entries ?U)" unfolding e by simp
  have h2: "PlayerID (entries ?U ! 2) = ''b''" unfolding e by simp
  note c = C9_tie_break_placement[OF h1 h2]
  have l1: "(1::nat) < length (entries ?U)" unfolding e by simp
  have s1: "Score (entries ?U ! 1) = 100" unfolding e by simp
  have t1: "Timestamp (entries ?U ! 1) = 1" unfolding e by simp
  have tie: "(1::nat) \<noteq> 2 \<and> Score (entries ?U ! 1) = 100 \<and> Timestamp (entries ?U ! 1) = 1"
    using s1 t1 by simp
  have before: "(1::nat) < 2"
    using c[THEN conjunct2, THEN conjunct1, rule_format, OF l1 tie] .
  show ?thesis
    by (intro conjI) (rule h1, rule h2, rule e, rule c[THEN conjunct1], rule s1, rule t1, rule before)
qed

text \<open>
  The parenthesis of claim C9 as stated fails: the insertion of \<open>b\<close> has moved past \<open>a\<close>,
  whose score is not strictly greater and whose timestamp is equal, not strictly smaller.
\<close>

theorem C9_tie_break_placement_counterexample:
  "PlayerID (entries (UpdateScore (run [(''a'', 100, 1)]) ''b'' 100 1) ! 1) = ''b''
   \<and> PlayerID (entries (UpdateScore (run [(''a'', 100, 1)]) ''b'' 100 1) ! 0) = ''a''
   \<and> \<not> (Score (entries (UpdateScore (run [(''a'', 100, 1)]) ''b'' 100 1) ! 0) > 100
          \<or> (Score (entries (UpdateScore (run [(''a'', 100, 1)]) ''b'' 100 1) ! 0) = 100
              \<and> Timestamp (entries (UpdateScore (run [(''a'', 100, 1)]) ''b'' 100 1) ! 0) < 1))"
proof -
  have e: "entries (UpdateScore (run [(''a'', 100, 1)]) ''b'' 100 1) =
       [\<lparr>PlayerID = ''a'', Score = 100, Timestamp = 1\<rparr>,
        \<lparr>PlayerID = ''b'', Score = 100, Timestamp = 1\<rparr>]"
    by code_simp
  show ?thesis unfolding e by simp
qed

text \<open>
  Claim C10, amended. In every reachable state, for every known player and every \<open>rng \<ge> 0\<close>
  for which \<open>2 * rng + 1\<close> is a capacity the runtime allocates, \<open>GetPlayerRankRange\<close> returns
  a result with exactly one entry of the player and \<open>GetPlayerDenseRankRange\<close> a result with
  an entry of the player. The last two hypotheses say that the runtime can allocate a
  result as long as the population and that its limit is below \<open>2^62\<close> elements, as on
  every platform; then none of the sums of the code overflows.
\<close>

theorem C10_self_inclusion:
  assumes "pid \<in> fst ` set calls"
    and "0 \<le> rng" and "2 * rng + 1 \<le> maxcap"
    and "int (length (ranking (run calls))) \<le> maxcap" and "maxcap < 2 ^ 62"
  shows "(\<exists>res. GetPlayerRankRange maxcap (run calls) pid rng = Inr (Some res)
               \<and> length (filter (\<lambda>r. RankInfo.PlayerID r = pid) res) = 1)
       \<and> (\<exists>res. GetPlayerDenseRankRange maxcap (run calls) pid rng = Inr (Some res)
               \<and> (\<exists>r \<in> set res. RankInfo.PlayerID r = pid))"
proof -
  let ?lb = "run calls"
  obtain a where "players ?lb pid = Some a" using assms(1) dom_run[of calls] by blast
  then obtain k where k: "k < length (ranking ?lb)" "PlayerID (entries ?lb ! k) = pid"
    using wf_known_position[OF wf_run] by blast
  have p: "(2::int) ^ 63 = 2 ^ 62 + 2 ^ 62" by simp
  have b0: "rng < 2 ^ 62" using assms(2,3,5) by linarith
  have bl: "int (length (ranking ?lb)) < 2 ^ 62" using assms(4,5) by linarith
  have b1: "int k + rng < 2 ^ 63" unfolding p using k(1) b0 bl by linarith
  have b2: "int (length (ranking ?lb)) < 2 ^ 63" unfolding p using bl by linarith
  have "dense_rank_ref (scores ?lb) k \<le> int k + 2" by (rule dense_rank_ref_le)
  then have b3: "dense_rank_ref (scores ?lb) k + rng < 2 ^ 63"
    unfolding p using k(1) b0 bl by linarith
  have p1: "\<exists>res. GetPlayerRankRange maxcap ?lb pid rng = Inr (Some res)
               \<and> length (filter (\<lambda>r. RankInfo.PlayerID r = pid) res) = 1"
    using wf_run k assms(2) b1 b2 assms(4) by (rule self_inclusion_std)
  have p2: "\<exists>res. GetPlayerDenseRankRange maxcap ?lb pid rng = Inr (Some res)
               \<and> (\<exists>r \<in> set res. RankInfo.PlayerID r = pid)"
    using wf_run k assms(2) b0 b3 assms(3) by (rule self_inclusion_dense)
  show ?thesis using p1 p2 by (rule conjI)
qed

text \<open>
  The second of three players, with radius 1.
\<close>

theorem C10_self_inclusion_witness:
  "''b'' \<in> fst ` set ([(''a'', 100, 1), (''b'', 100, 2), (''c'', 90, 3)] :: call list)
   \<and> (0::int) \<le> 1 \<and> 2 * 1 + 1 \<le> maxcap_amd64
   \<and> int (length (ranking (run [(''a'', 100, 1), (''b'', 100, 2), (''c'', 90, 3)]))) \<le> maxcap_amd64
   \<and> maxcap_amd64 < 2 ^ 62
   \<and> GetPlayerRankRange maxcap_amd64 (run [(''a'', 100, 1), (''b'', 100, 2), (''c'', 90, 3)]) ''b'' 1 =
       Inr (Some
         [\<lparr>RankInfo.PlayerID = ''a'', RankInfo.Score = 100, Rank = 1, RankInfo.Timestamp = 1\<rparr>,
          \<lparr>RankInfo.PlayerID = ''b'', RankInfo.Score = 100, Rank = 2, RankInfo.Timestamp = 2\<rparr>,
          \<lparr>RankInfo.PlayerID = ''c'', RankInfo.Score = 90, Rank = 3, RankInfo.Timestamp = 3\<rparr>])
   \<and> length (filter (\<lambda>r. RankInfo.PlayerID r = ''b'')
         [\<lparr>RankInfo.PlayerID = ''a'', RankInfo.Score = 100, Rank = 1, RankInfo.Timestamp = 1\<rparr>,
          \<lparr>RankInfo.PlayerID = ''b'', RankInfo.Score = 100, Rank = 2, RankInfo.Timestamp = 2\<rparr>,
          \<lparr>RankInfo.PlayerID = ''c'', RankInfo.Score = 90, Rank = 3, RankInfo.Timestamp = 3\<rparr>]) = 1
   \<and> GetPlayerDenseRankRange maxcap_amd64 (run [(''a'', 100, 1), (''b'', 100, 2), (''c'', 90, 3)]) ''b'' 1 =
       Inr (Some
         [\<lparr>RankInfo.PlayerID = ''a'', RankInfo.Score = 100, Rank = 1, RankInfo.Timestamp = 1\<rparr>,
          \<lparr>RankInfo.PlayerID = ''b'', RankInfo.Score = 100, Rank = 1, RankInfo.Timestamp = 2\<rparr>,
          \<lparr>RankInfo.PlayerID = ''c'', RankInfo.Score = 90, Rank = 2, RankInfo.Timestamp = 3\<rparr>])"
proof -
  let ?cs = "[(''a'', 100, 1), (''b'', 100, 2), (''c'', 90, 3)] :: call list"
  let ?R = "[\<lparr>RankInfo.PlayerID = ''a'', RankInfo.Score = 100, Rank = 1, RankInfo.Timestamp = 1\<rparr>,
          \<lparr>RankInfo.PlayerID = ''b'', RankInfo.Score = 100, Rank = 2, RankInfo.Timestamp = 2\<rparr>,
          \<lparr>RankInfo.PlayerID = ''c'', RankInfo.Score = 90, Rank = 3, RankInfo.Timestamp = 3\<rparr>]"
  have h1: "''b'' \<in> fst ` set ?cs" by simp
  have h2: "(0::int) \<le> 1" by simp
  have h3: "2 * 1 + 1 \<le> maxcap_amd64" by (simp add: maxcap_amd64_def)
  have r: "ranking (run ?cs) = [0, 1, 2]" by code_simp
  have h4: "int (length (ranking (run ?cs))) \<le> maxcap_amd64"
    unfolding r by (simp add: maxcap_amd64_def)
  have h5: "maxcap_amd64 < 2 ^ 62" by (simp add: maxcap_amd64_def)
  note c = C10_self_inclusion[OF h1 h2 h3 h4 h5]
  have g: "GetPlayerRankRange maxcap_amd64 (run ?cs) ''b'' 1 = Inr (Some ?R)" by code_simp
  have gd: "GetPlayerDenseRankRange maxcap_amd64 (run ?cs) ''b'' 1 =
       Inr (Some
         [\<lparr>RankInfo.PlayerID = ''a'', RankInfo.Score = 100, Rank = 1, RankInfo.Timestamp = 1\<rparr>,
          \<lparr>RankInfo.PlayerID = ''b'', RankInfo.Score = 100, Rank = 1, RankInfo.Timestamp = 2\<rparr>,
          \<lparr>RankInfo.PlayerID = ''c'', RankInfo.Score = 90, Rank = 2, RankInfo.Timestamp = 3\<rparr>])"
    by code_simp
  obtain res where res: "GetPlayerRankRange maxcap_amd64 (run ?cs) ''b'' 1 = Inr (Some res)"
      "length (filter (\<lambda>r. RankInfo.PlayerID r = ''b'') res) = 1"
    using c[THEN conjunct1] by blast
  have "res = ?R" using res(1) unfolding g by simp
  then have once: "length (filter (\<lambda>r. RankInfo.PlayerID r = ''b'') ?R) = 1"
    using res(2) by blast
  show ?thesis
    by (intro conjI) (rule h1, rule h2, rule h3, rule h4, rule h5, rule g, rule once, rule gd)
qed

text \<open>
  Claim C10 as stated fails for \<open>rng = 2^63 - 1\<close>: \<open>2 * rng + 1\<close> and \<open>rank + rng\<close> wrap
  around to negative capacities and both queries panic instead of returning the player.
\<close>

theorem C10_self_inclusion_counterexample:
  "(0::int) \<le> 9223372036854775807
   \<and> GetPlayerDenseRankRange maxcap_amd64 (run [(''a'', 100, 1)]) ''a'' 9223372036854775807
       = Inl MakeSliceCapOutOfRange
   \<and> GetPlayerRankRange maxcap_amd64 (run [(''a'', 100, 1), (''b'', 90, 2)]) ''b'' 9223372036854775807
       = Inl MakeSliceCapOutOfRange"
  by code_simp

end
